theory Spec2Isabelle
  imports Main "HOL-Library.Sublist" "HOL-Library.List_Lexorder"
begin

section \<open>Data model (src/index.tsx, lines 21-40)\<close>

text \<open>
  A JavaScript string is a sequence of UTF-16 code units; a code unit is an \<open>int\<close>
  here. \<open>u\<close> reads a literal of Basic Latin characters as such a string.
\<close>

type_synonym ustring = "int list"

definition u :: "string \<Rightarrow> ustring" where
  "u s = map of_char s"

text \<open>
  \<^verbatim>\<open>interface BookmarkItem\<close>. The optional fields are \<open>option\<close>s: \<open>None\<close> is JavaScript's
  \<open>undefined\<close>. The field \<open>id\<close> is written \<open>id'\<close>, since \<open>id\<close> is the identity function
  of HOL.
\<close>

record BookmarkItem =
  id' :: ustring
  title :: ustring
  url :: ustring
  description :: "ustring option"
  category :: "ustring option"
  tags :: "ustring list option"
  processed :: bool
  addedAt :: int

text \<open>An anchor element of the parsed document, as far as the import reads it.\<close>

record link =
  textContent :: ustring
  href :: ustring

section \<open>Import: \<^verbatim>\<open>parseBookmarksHTML\<close> (lines 92-112)\<close>

text \<open>
  \<^verbatim>\<open>generateId()\<close> and \<^verbatim>\<open>Date.now()\<close> are not functions of the program state: the model
  takes the value of the k-th call inside one import as \<open>gen k\<close> and \<open>now k\<close>.
  \<^verbatim>\<open>link.textContent || "Untitled"\<close> takes the placeholder for the empty string.
\<close>

definition newBookmarks :: "(nat \<Rightarrow> ustring) \<Rightarrow> (nat \<Rightarrow> int) \<Rightarrow> link list \<Rightarrow> BookmarkItem list" where
  "newBookmarks gen now links =
     map (\<lambda>(k, l). \<lparr> id' = gen k,
                      title = (if textContent l = [] then (u ''Untitled'') else textContent l),
                      url = href l,
                      description = None, category = None, tags = None,
                      processed = False,
                      addedAt = now k \<rparr>)
         (enumerate 0 (take 50 links))"

text \<open>
  \<open>bookmarks\<close> is the catalog the handler closed over (it feeds \<open>existingUrls\<close>);
  \<open>prev\<close> is the catalog the state update is applied to.
\<close>

definition parseBookmarksHTML ::
  "(nat \<Rightarrow> ustring) \<Rightarrow> (nat \<Rightarrow> int) \<Rightarrow> link list \<Rightarrow> BookmarkItem list \<Rightarrow> BookmarkItem list \<Rightarrow> BookmarkItem list" where
  "parseBookmarksHTML gen now links bookmarks prev =
     (let existingUrls = set (map url bookmarks);
          uniqueNewBookmarks = filter (\<lambda>b. url b \<notin> existingUrls) (newBookmarks gen now links)
      in prev @ uniqueNewBookmarks)"

text \<open>An import whose handler sees the catalog it updates.\<close>

definition import_links ::
  "(nat \<Rightarrow> ustring) \<Rightarrow> (nat \<Rightarrow> int) \<Rightarrow> link list \<Rightarrow> BookmarkItem list \<Rightarrow> BookmarkItem list" where
  "import_links gen now links bookmarks = parseBookmarksHTML gen now links bookmarks bookmarks"

section \<open>Delete: \<^verbatim>\<open>deleteBookmark\<close> (lines 198-200)\<close>

definition deleteBookmark :: "ustring \<Rightarrow> BookmarkItem list \<Rightarrow> BookmarkItem list" where
  "deleteBookmark i prev = filter (\<lambda>b. id' b \<noteq> i) prev"

section \<open>Batch scheduling (lines 120-125)\<close>

definition BATCH_SIZE :: nat where
  "BATCH_SIZE = 10"

text \<open>\<^verbatim>\<open>xs.slice(i, j)\<close> for \<open>0 \<le> i \<le> j\<close>; the end is clipped to the length.\<close>

definition slice :: "nat \<Rightarrow> nat \<Rightarrow> 'a list \<Rightarrow> 'a list" where
  "slice i j xs = take (j - i) (drop i xs)"

text \<open>The \<^verbatim>\<open>for (let i = 0; i < unprocessed.length; i += BATCH_SIZE)\<close> loop, from index \<open>i\<close> on.\<close>

function make_batches :: "nat \<Rightarrow> 'a list \<Rightarrow> 'a list list" where
  "make_batches i unprocessed =
     (if i < length unprocessed
      then slice i (i + BATCH_SIZE) unprocessed # make_batches (i + BATCH_SIZE) unprocessed
      else [])"
  by pat_completeness auto
termination
  by (relation "measure (\<lambda>(i, unprocessed). length unprocessed - i)") (auto simp: BATCH_SIZE_def)

declare make_batches.simps [simp del]

section \<open>The insertion-ordered \<^verbatim>\<open>Map\<close> (line 127)\<close>

text \<open>
  A JavaScript \<^verbatim>\<open>Map\<close> keeps its keys in insertion order; setting an existing key
  replaces the value where the key stands.
\<close>

type_synonym 'v jsmap = "(ustring \<times> 'v) list"

fun map_set :: "ustring \<Rightarrow> 'v \<Rightarrow> 'v jsmap \<Rightarrow> 'v jsmap" where
  "map_set k v [] = [(k, v)]"
| "map_set k v ((k', v') # m) = (if k' = k then (k, v) # m else (k', v') # map_set k v m)"

definition new_Map :: "(ustring \<times> 'v) list \<Rightarrow> 'v jsmap" where
  "new_Map kvs = fold (\<lambda>(k, v) m. map_set k v m) kvs []"

definition map_values :: "'v jsmap \<Rightarrow> 'v list" where
  "map_values m = map snd m"

section \<open>The classification service and its response (lines 145-170)\<close>

text \<open>
  An element of \<open>result.items\<close>, by what the merge step reads of it. \<open>ItemNull\<close> is
  JSON \<open>null\<close> (reading \<open>.url\<close> of it throws); \<open>ItemOther\<close> is a number, string, boolean
  or array (its \<open>.url\<close> is \<open>undefined\<close>); \<open>ItemObject\<close> is an object, whose four
  properties are optional as in the response schema. A \<open>url\<close> that is not a string
  never equals a bookmark's url and is \<open>None\<close> here; the other three are typed as
  \<^verbatim>\<open>interface BookmarkItem\<close> declares the fields they are stored in.
\<close>

record response_item =
  item_url :: "ustring option"
  item_category :: "ustring option"
  item_description :: "ustring option"
  item_tags :: "ustring list option"

datatype processedItem = ItemNull | ItemOther | ItemObject response_item

text \<open>
  The \<open>items\<close> property of the parsed body: \<open>ItemsUndefined\<close> when the object has no
  such property, \<open>ItemsNull\<close> when it is \<open>null\<close> (\<open>?.\<close> stops at both), \<open>ItemsNotArray\<close> a
  value with no \<open>forEach\<close> (number, string, boolean, object), \<open>ItemsArray\<close> an array.
\<close>

datatype items_field = ItemsUndefined | ItemsNull | ItemsNotArray | ItemsArray "processedItem list"

text \<open>
  What \<^verbatim>\<open>JSON.parse\<close> returned: \<open>ParsedNull\<close> is \<open>null\<close> (reading \<open>.items\<close> of it throws),
  \<open>ParsedNonObject\<close> a number, string, boolean or array (its \<open>.items\<close> is \<open>undefined\<close>),
  \<open>ParsedObject\<close> an object.
\<close>

datatype parsed = ParsedNull | ParsedNonObject | ParsedObject items_field

text \<open>
  \<open>response.text\<close>: \<open>NoText\<close> is \<open>undefined\<close> or the empty string (both falsy),
  \<open>NotJson\<close> a text on which \<^verbatim>\<open>JSON.parse\<close> throws, \<open>Json p\<close> a text it parses to \<open>p\<close>.
\<close>

datatype body = NoText | NotJson | Json parsed

text \<open>The awaited call either rejects or resolves to a response.\<close>

datatype response = Rejected | Responded body

datatype error = ServiceError | SyntaxError | TypeError

text \<open>The service: the answer to the k-th call of a run, given its payload of (title, url) pairs.\<close>

type_synonym service = "nat \<Rightarrow> (ustring \<times> ustring) list \<Rightarrow> response"

text \<open>\<^verbatim>\<open>JSON.parse(response.text || "{\"items\": []}")\<close> (line 170).\<close>

definition parse_text :: "body \<Rightarrow> error + parsed" where
  "parse_text b =
     (case b of
        NoText \<Rightarrow> Inr (ParsedObject (ItemsArray []))
      | NotJson \<Rightarrow> Inl SyntaxError
      | Json p \<Rightarrow> Inr p)"

section \<open>The merge step (lines 172-185)\<close>

text \<open>The body of the \<^verbatim>\<open>forEach\<close> callback for one response item.\<close>

definition merge_item ::
  "BookmarkItem list \<Rightarrow> processedItem \<Rightarrow> BookmarkItem jsmap \<Rightarrow> error + BookmarkItem jsmap" where
  "merge_item batch processedItem m =
     (case processedItem of
        ItemNull \<Rightarrow> Inl TypeError
      | ItemOther \<Rightarrow> Inr m
      | ItemObject it \<Rightarrow>
          (case find (\<lambda>b. Some (url b) = item_url it) batch of
             None \<Rightarrow> Inr m
           | Some original \<Rightarrow>
               Inr (map_set (id' original)
                      (original\<lparr> processed := True,
                                 category := item_category it,
                                 description := item_description it,
                                 tags := item_tags it \<rparr>) m)))"

fun merge_items ::
  "BookmarkItem list \<Rightarrow> processedItem list \<Rightarrow> BookmarkItem jsmap \<Rightarrow> error + BookmarkItem jsmap" where
  "merge_items batch [] m = Inr m"
| "merge_items batch (x # xs) m =
     (case merge_item batch x m of
        Inl e \<Rightarrow> Inl e
      | Inr m' \<Rightarrow> merge_items batch xs m')"

text \<open>\<^verbatim>\<open>result.items?.forEach(...)\<close>.\<close>

definition merge_result ::
  "BookmarkItem list \<Rightarrow> parsed \<Rightarrow> BookmarkItem jsmap \<Rightarrow> error + BookmarkItem jsmap" where
  "merge_result batch result m =
     (case result of
        ParsedNull \<Rightarrow> Inl TypeError
      | ParsedNonObject \<Rightarrow> Inr m
      | ParsedObject ItemsUndefined \<Rightarrow> Inr m
      | ParsedObject ItemsNull \<Rightarrow> Inr m
      | ParsedObject ItemsNotArray \<Rightarrow> Inl TypeError
      | ParsedObject (ItemsArray xs) \<Rightarrow> merge_items batch xs m)"

text \<open>One loop iteration up to the commit: the call, the parse and the merge.\<close>

definition process_batch ::
  "service \<Rightarrow> nat \<Rightarrow> BookmarkItem list \<Rightarrow> BookmarkItem jsmap \<Rightarrow> error + BookmarkItem jsmap" where
  "process_batch ai k batch m =
     (let batchInput = map (\<lambda>b. (title b, url b)) batch
      in case ai k batchInput of
           Rejected \<Rightarrow> Inl ServiceError
         | Responded b \<Rightarrow>
             (case parse_text b of
                Inl e \<Rightarrow> Inl e
              | Inr result \<Rightarrow> merge_result batch result m))"

section \<open>The pipeline run: \<^verbatim>\<open>processUnprocessedBookmarks\<close> (lines 114-196)\<close>

text \<open>
  The state a run acts on and what it leaves behind: \<open>catalog\<close> is the React state
  \<open>bookmarks\<close> as it stands, \<open>commits\<close> the arguments of the run's \<^verbatim>\<open>setBookmarks\<close> calls
  in order, \<open>calls\<close> the number of service calls made, \<open>alerts\<close> the number of \<^verbatim>\<open>alert\<close>
  dialogs shown, \<open>failure\<close> the exception the \<^verbatim>\<open>catch\<close> block received.
\<close>

record run =
  catalog :: "BookmarkItem list"
  isProcessing :: bool
  calls :: nat
  commits :: "BookmarkItem list list"
  alerts :: nat
  failure :: "error option"

text \<open>
  The \<^verbatim>\<open>for (const batch of batches)\<close> loop inside \<^verbatim>\<open>try\<close>. The run is suspended while
  call \<open>k\<close> is awaited; \<open>during k\<close> lists the ids the user deletes meanwhile
  (\<^verbatim>\<open>deleteBookmark\<close> on the live state). The \<^verbatim>\<open>catch\<close> block ends the loop.
\<close>

fun batch_loop ::
  "service \<Rightarrow> (nat \<Rightarrow> ustring list) \<Rightarrow> nat \<Rightarrow> BookmarkItem list list \<Rightarrow> BookmarkItem jsmap \<Rightarrow> run \<Rightarrow> run" where
  "batch_loop ai during k [] updatedBookmarksMap st = st"
| "batch_loop ai during k (batch # rest) updatedBookmarksMap st =
     (let st1 = st\<lparr> calls := calls st + 1,
                    catalog := fold deleteBookmark (during k) (catalog st) \<rparr>
      in case process_batch ai k batch updatedBookmarksMap of
           Inl e \<Rightarrow> st1\<lparr> alerts := alerts st1 + 1, failure := Some e \<rparr>
         | Inr m' \<Rightarrow>
             batch_loop ai during (k + 1) rest m'
               (st1\<lparr> catalog := map_values m',
                     commits := commits st1 @ [map_values m'] \<rparr>))"

definition processUnprocessedBookmarks ::
  "service \<Rightarrow> (nat \<Rightarrow> ustring list) \<Rightarrow> BookmarkItem list \<Rightarrow> run" where
  "processUnprocessedBookmarks ai during bookmarks =
     (let unprocessed = filter (\<lambda>b. \<not> processed b) bookmarks;
          idle = \<lparr> catalog = bookmarks, isProcessing = False, calls = 0, commits = [],
                   alerts = 0, failure = None \<rparr>
      in if length unprocessed = 0 then idle
         else
           let batches = make_batches 0 unprocessed;
               updatedBookmarksMap = new_Map (map (\<lambda>b. (id' b, b)) bookmarks);
               st = batch_loop ai during 0 batches updatedBookmarksMap (idle\<lparr> isProcessing := True \<rparr>)
           in st\<lparr> isProcessing := False \<rparr>)"

text \<open>A run during which the user deletes nothing.\<close>

definition no_deletes :: "nat \<Rightarrow> ustring list" where
  "no_deletes k = []"

section \<open>Derived state (lines 202-229)\<close>

text \<open>\<^verbatim>\<open>Set.add\<close>: a set keeps insertion order and ignores a value it already has.\<close>

definition set_add :: "'a \<Rightarrow> 'a list \<Rightarrow> 'a list" where
  "set_add x s = (if x \<in> set s then s else s @ [x])"

text \<open>\<^verbatim>\<open>if (b.category)\<close>: \<open>undefined\<close> and the empty string are falsy.\<close>

definition truthy :: "ustring option \<Rightarrow> bool" where
  "truthy c = (case c of None \<Rightarrow> False | Some s \<Rightarrow> s \<noteq> [])"

definition cats_of :: "BookmarkItem list \<Rightarrow> ustring list" where
  "cats_of bookmarks =
     fold (\<lambda>b cats. case category b of
                       None \<Rightarrow> cats
                     | Some c \<Rightarrow> if truthy (Some c) then set_add c cats else cats)
          bookmarks []"

text \<open>
  \<^verbatim>\<open>Array.prototype.sort()\<close> with no comparator orders strings by their code units;
  \<open>sort\<close> is over the lexicographic order of lists of code units.
\<close>

definition categories :: "BookmarkItem list \<Rightarrow> ustring list" where
  "categories bookmarks = [u ''All''] @ sort (cats_of bookmarks) @ [u ''Uncategorized'']"

text \<open>
  \<^verbatim>\<open>String.prototype.toLowerCase\<close> is a library function: the lower-case mapping of
  Unicode, which depends on the context of a character (the final sigma) and can
  change the length of a string. Two parts of it are written out here. On a string
  of Basic Latin code units (0 to 127) the letters A to Z (65 to 90) move up by 32
  and nothing else changes. On a string of the Greek letters alone (capitals 913 to
  937, small letters 945 to 969) a capital moves up by 32, except that capital
  sigma (931) becomes the final sigma (962) when it ends the string and a letter
  precedes it, and the small sigma (963) otherwise; all of these are cased letters,
  so no other character has to be looked at. On every other string the result is
  \<open>beyond s\<close>, a parameter of the model about which nothing is assumed.
\<close>

definition ascii_lower :: "int \<Rightarrow> int" where
  "ascii_lower c = (if 65 \<le> c \<and> c \<le> 90 then c + 32 else c)"

definition basic_latin :: "ustring \<Rightarrow> bool" where
  "basic_latin s = list_all (\<lambda>c. 0 \<le> c \<and> c < 128) s"

definition greek_letter :: "int \<Rightarrow> bool" where
  "greek_letter c = ((913 \<le> c \<and> c \<le> 937 \<and> c \<noteq> 930) \<or> (945 \<le> c \<and> c \<le> 969))"

text \<open>\<open>after\<close> says that a letter precedes the rest \<open>c # s\<close> of the string.\<close>

fun greek_lower :: "bool \<Rightarrow> ustring \<Rightarrow> ustring" where
  "greek_lower after [] = []"
| "greek_lower after (c # s) =
     (if c = 931 then (if after \<and> s = [] then 962 else 963)
      else if 913 \<le> c \<and> c \<le> 937 then c + 32
      else c) # greek_lower True s"

definition toLowerCase :: "(ustring \<Rightarrow> ustring) \<Rightarrow> ustring \<Rightarrow> ustring" where
  "toLowerCase beyond s =
     (if basic_latin s then map ascii_lower s
      else if list_all greek_letter s then greek_lower False s
      else beyond s)"

text \<open>\<^verbatim>\<open>s.includes(t)\<close>: \<open>t\<close> occurs in \<open>s\<close> at some position.\<close>

fun includes_str :: "ustring \<Rightarrow> ustring \<Rightarrow> bool" where
  "includes_str [] t = (t = [])"
| "includes_str (c # s) t = (prefix t (c # s) \<or> includes_str s t)"

definition matchesSearch :: "(ustring \<Rightarrow> ustring) \<Rightarrow> ustring \<Rightarrow> BookmarkItem \<Rightarrow> bool" where
  "matchesSearch beyond searchQuery b =
     (includes_str (toLowerCase beyond (title b)) (toLowerCase beyond searchQuery)
      \<or> (case description b of
            None \<Rightarrow> False
          | Some d \<Rightarrow> includes_str (toLowerCase beyond d) (toLowerCase beyond searchQuery))
      \<or> (case tags b of
            None \<Rightarrow> False
          | Some ts \<Rightarrow>
              list_ex (\<lambda>t. includes_str (toLowerCase beyond t) (toLowerCase beyond searchQuery)) ts))"

definition matchesCategory :: "ustring \<Rightarrow> BookmarkItem \<Rightarrow> bool" where
  "matchesCategory filterCategory b =
     (if filterCategory = (u ''All'') then True
      else if filterCategory = (u ''Uncategorized'') then \<not> truthy (category b)
      else category b = Some filterCategory)"

definition filteredBookmarks ::
  "(ustring \<Rightarrow> ustring) \<Rightarrow> BookmarkItem list \<Rightarrow> ustring \<Rightarrow> ustring \<Rightarrow> BookmarkItem list" where
  "filteredBookmarks beyond bookmarks searchQuery filterCategory =
     filter (\<lambda>b. matchesSearch beyond searchQuery b \<and> matchesCategory filterCategory b) bookmarks"

section \<open>The view, as the specification words it\<close>

text \<open>An entry has no category when the field is absent or the empty string.\<close>

definition no_category :: "BookmarkItem \<Rightarrow> bool" where
  "no_category b = (category b = None \<or> category b = Some [])"









section \<open>Example inputs\<close>

text \<open>Four entries with the categories Frontend, Frontend, Backend and none.\<close>

definition books4 :: "BookmarkItem list" where
  "books4 = [
    \<lparr> id' = u ''a1'', title = u ''React Docs'', url = u ''https://react.dev'',
      description = Some (u ''UI library''), category = Some (u ''Frontend''),
      tags = Some [u ''React'', u ''UI''], processed = True, addedAt = 1 \<rparr>,
    \<lparr> id' = u ''a2'', title = u ''Vue'', url = u ''https://vuejs.org'',
      description = Some (u ''UI framework''), category = Some (u ''Frontend''),
      tags = Some [u ''Vue''], processed = True, addedAt = 2 \<rparr>,
    \<lparr> id' = u ''a3'', title = u ''Django'', url = u ''https://djangoproject.com'',
      description = Some (u ''Web framework''), category = Some (u ''Backend''),
      tags = Some [u ''Python''], processed = True, addedAt = 3 \<rparr>,
    \<lparr> id' = u ''a4'', title = u ''Misc'', url = u ''https://example.org'',
      description = None, category = None, tags = None, processed = False, addedAt = 4 \<rparr>]"



section \<open>Hard failures, as the code has them\<close>

text \<open>
  The responses on which an iteration throws: a rejected call, a body that is not JSON,
  the JSON value \<open>null\<close>, an \<open>items\<close> property that is a number, string, boolean or object
  (neither missing, nor \<open>null\<close>, nor an array), and an \<open>items\<close> array with a \<open>null\<close>
  element.
\<close>

fun throws :: "response \<Rightarrow> bool" where
  "throws Rejected = True"
| "throws (Responded NoText) = False"
| "throws (Responded NotJson) = True"
| "throws (Responded (Json ParsedNull)) = True"
| "throws (Responded (Json ParsedNonObject)) = False"
| "throws (Responded (Json (ParsedObject ItemsUndefined))) = False"
| "throws (Responded (Json (ParsedObject ItemsNull))) = False"
| "throws (Responded (Json (ParsedObject ItemsNotArray))) = True"
| "throws (Responded (Json (ParsedObject (ItemsArray xs)))) = (ItemNull \<in> set xs)"

section \<open>More example inputs\<close>

text \<open>Stand-ins for \<^verbatim>\<open>generateId\<close> and \<^verbatim>\<open>Date.now\<close>, two imports and two services.\<close>

definition gen0 :: "nat \<Rightarrow> ustring" where
  "gen0 k = u ''id'' @ replicate k 120"

definition now0 :: "nat \<Rightarrow> int" where
  "now0 k = 1700000000000"

definition dup_links :: "link list" where
  "dup_links = [\<lparr> textContent = u ''A'', href = u ''https://a.example/'' \<rparr>,
                \<lparr> textContent = u ''A again'', href = u ''https://a.example/'' \<rparr>]"

definition two_links :: "link list" where
  "two_links = [\<lparr> textContent = u ''A'', href = u ''https://a.example/'' \<rparr>,
                \<lparr> textContent = u '''', href = u ''https://b.example/'' \<rparr>]"

definition cat2 :: "BookmarkItem list" where
  "cat2 = import_links gen0 now0 two_links []"

definition silent :: service where
  "silent k p = Responded NoText"

definition garbled :: service where
  "garbled k p = Responded NotJson"

section \<open>Catalog states and their invariants\<close>

text \<open>Category, description and tags are all present and non-empty.\<close>

definition complete :: "BookmarkItem \<Rightarrow> bool" where
  "complete b =
     ((\<exists>c. category b = Some c \<and> c \<noteq> [])
      \<and> (\<exists>d. description b = Some d \<and> d \<noteq> [])
      \<and> (\<exists>ts. tags b = Some ts \<and> ts \<noteq> []))"

text \<open>The same of a response item.\<close>

definition complete_item :: "response_item \<Rightarrow> bool" where
  "complete_item it =
     ((\<exists>c. item_category it = Some c \<and> c \<noteq> [])
      \<and> (\<exists>d. item_description it = Some d \<and> d \<noteq> [])
      \<and> (\<exists>ts. item_tags it = Some ts \<and> ts \<noteq> []))"

text \<open>A service every item of whose item lists carries the three fields, non-empty.\<close>

definition complete_service :: "service \<Rightarrow> bool" where
  "complete_service ai =
     (\<forall>k p xs it. ai k p = Responded (Json (ParsedObject (ItemsArray xs))) \<and> ItemObject it \<in> set xs
        \<longrightarrow> complete_item it)"

text \<open>
  An import reads the file asynchronously: the handler deduplicates against \<open>captured\<close>,
  the catalog of the render in which the file was chosen, and appends to \<open>live\<close>, the
  catalog at the time of the update. A careful import has pairwise distinct urls
  among its first 50 links and a captured catalog that holds every url of the live
  one (as it does when the catalog has not changed meanwhile, or only lost entries).
\<close>

definition careful_import :: "link list \<Rightarrow> BookmarkItem list \<Rightarrow> BookmarkItem list \<Rightarrow> bool" where
  "careful_import links captured live =
     (distinct (map href (take 50 links)) \<and> set (map url live) \<subseteq> set (map url captured))"

text \<open>No restriction on the imports, or on the services.\<close>

definition any_import :: "link list \<Rightarrow> BookmarkItem list \<Rightarrow> BookmarkItem list \<Rightarrow> bool" where
  "any_import links captured live = True"

definition any_service :: "service \<Rightarrow> bool" where
  "any_service ai = True"

text \<open>
  The catalogs reachable from the empty one: by an import admitted by \<open>admits\<close>, whose
  handler captured an earlier catalog, by a delete, and by a per-batch commit of a
  run against a service in \<open>services\<close>. A run commits the values of its own map,
  whatever the catalog has become meanwhile, so a commit is reachable from the
  catalog the run started on.
\<close>

inductive reachable ::
  "(link list \<Rightarrow> BookmarkItem list \<Rightarrow> BookmarkItem list \<Rightarrow> bool) \<Rightarrow> (service \<Rightarrow> bool) \<Rightarrow>
   BookmarkItem list \<Rightarrow> bool"
  for admits :: "link list \<Rightarrow> BookmarkItem list \<Rightarrow> BookmarkItem list \<Rightarrow> bool"
    and services :: "service \<Rightarrow> bool"
where
  start: "reachable admits services []"
| imported: "reachable admits services captured \<Longrightarrow> reachable admits services live \<Longrightarrow>
     admits links captured live \<Longrightarrow>
     reachable admits services (parseBookmarksHTML gen now links captured live)"
| deleted: "reachable admits services c \<Longrightarrow> reachable admits services (deleteBookmark i c)"
| committed: "reachable admits services c \<Longrightarrow> services ai \<Longrightarrow>
     c' \<in> set (commits (processUnprocessedBookmarks ai during c)) \<Longrightarrow>
     reachable admits services c'"

text \<open>
  Two more services: one answers every entry with all three fields, one with the
  url alone.
\<close>

definition helpful :: service where
  "helpful k p =
     Responded (Json (ParsedObject (ItemsArray
       (map (\<lambda>(t, w). ItemObject \<lparr> item_url = Some w, item_category = Some (u ''Other''),
                                     item_description = Some (u ''A page''),
                                     item_tags = Some [u ''web''] \<rparr>) p))))"

definition bare :: service where
  "bare k p =
     Responded (Json (ParsedObject (ItemsArray
       (map (\<lambda>(t, w). ItemObject \<lparr> item_url = Some w, item_category = None,
                                     item_description = None, item_tags = None \<rparr>) p))))"

text \<open>
  Invariants of \<open>updatedBookmarksMap\<close> during a run started on the catalog \<open>bs\<close>: keys are
  distinct and every value carries the url of an entry of \<open>bs\<close> with its key as id;
  and every processed value is complete.
\<close>

definition url_inv :: "BookmarkItem list \<Rightarrow> BookmarkItem jsmap \<Rightarrow> bool" where
  "url_inv bs m =
     (distinct (map fst m) \<and> (\<forall>(k, v) \<in> set m. \<exists>b \<in> set bs. id' b = k \<and> url b = url v))"

definition complete_inv :: "BookmarkItem jsmap \<Rightarrow> bool" where
  "complete_inv m = (\<forall>(k, v) \<in> set m. processed v \<longrightarrow> complete v)"

section \<open>Deleting while a run is in flight\<close>

text \<open>
  A third invariant of \<open>updatedBookmarksMap\<close>: its keys are the ids of the catalog the
  run started on, and every value has its key as id.
\<close>

definition id_inv :: "BookmarkItem list \<Rightarrow> BookmarkItem jsmap \<Rightarrow> bool" where
  "id_inv bs m = (fst ` set m = id' ` set bs \<and> (\<forall>(k, v) \<in> set m. id' v = k))"

text \<open>A fourth: the keys are the ids of that catalog in its order.\<close>

definition order_inv :: "BookmarkItem list \<Rightarrow> BookmarkItem jsmap \<Rightarrow> bool" where
  "order_inv bs m = (map fst m = map id' bs \<and> (\<forall>(k, v) \<in> set m. id' v = k))"

text \<open>
  Eleven entries, hence two batches, and a user who deletes the last entry (of the
  second batch) while the first call is outstanding.
\<close>

definition links_upto :: "nat \<Rightarrow> link list" where
  "links_upto n =
     map (\<lambda>k. \<lparr> textContent = u ''Page'', href = u ''https://x.example/'' @ replicate k 97 \<rparr>) [0..<n]"

definition cat11 :: "BookmarkItem list" where
  "cat11 = import_links gen0 now0 (links_upto 11) []"

definition delete_last :: "nat \<Rightarrow> ustring list" where
  "delete_last k = (if k = 0 then [u ''idxxxxxxxxxx''] else [])"

section \<open>A run that fails part-way\<close>

text \<open>
  The items a response hands to the merge step, the urls they carry, and the urls
  with which the service answers call \<open>k\<close> for a batch.
\<close>

fun response_items :: "response \<Rightarrow> processedItem list" where
  "response_items (Responded (Json (ParsedObject (ItemsArray xs)))) = xs"
| "response_items r = []"

definition item_urls :: "processedItem list \<Rightarrow> ustring list" where
  "item_urls xs = List.map_filter (\<lambda>x. case x of ItemObject it \<Rightarrow> item_url it | _ \<Rightarrow> None) xs"

definition answered :: "service \<Rightarrow> nat \<Rightarrow> BookmarkItem list \<Rightarrow> ustring list" where
  "answered ai k batch = item_urls (response_items (ai k (map (\<lambda>b. (title b, url b)) batch)))"

text \<open>
  \<open>v\<close> is the entry \<open>e\<close> after enrichment: same id, title, url and creation time,
  and \<open>processed\<close> set.
\<close>

definition enriched_from :: "BookmarkItem \<Rightarrow> BookmarkItem \<Rightarrow> bool" where
  "enriched_from e v =
     (id' v = id' e \<and> title v = title e \<and> url v = url e \<and> addedAt v = addedAt e \<and> processed v)"

text \<open>The run's map after the leading batches have merged, call \<open>k\<close> being the first.\<close>

fun merge_all :: "service \<Rightarrow> nat \<Rightarrow> BookmarkItem list list \<Rightarrow> BookmarkItem jsmap \<Rightarrow> BookmarkItem jsmap" where
  "merge_all ai k [] m = m"
| "merge_all ai k (batch # rest) m =
     (case process_batch ai k batch m of
        Inl e \<Rightarrow> m
      | Inr m' \<Rightarrow> merge_all ai (Suc k) rest m')"

text \<open>
  Twenty-one entries, hence three batches; a service that rejects the second call,
  and one that sends no body on the first call and rejects the second.
\<close>

definition cat21 :: "BookmarkItem list" where
  "cat21 = import_links gen0 now0 (links_upto 21) []"

definition fails_second :: service where
  "fails_second k p = (if k = 1 then Rejected else helpful k p)"

definition silent_then_fails :: service where
  "silent_then_fails k p = (if k = 0 then Responded NoText else Rejected)"

section \<open>Deleting an entry\<close>

lemma count_list_filter:
  "count_list (filter P xs) x = (if P x then count_list xs x else 0)"
  by (induction xs) auto

text \<open>
  Claim C10. \<open>deleteBookmark i\<close> removes every entry whose id is \<open>i\<close> and no other:
  each entry with another id occurs as often as before, and the result is a
  subsequence of the catalog (relative order unchanged). When no entry has the id,
  the catalog is returned as it was. The function is total: it raises nothing.
\<close>

theorem deleteBookmark_frame:
  "(\<forall>b. count_list (deleteBookmark i bs) b = (if id' b = i then 0 else count_list bs b))
   \<and> subseq (deleteBookmark i bs) bs
   \<and> (i \<notin> id' ` set bs \<longrightarrow> deleteBookmark i bs = bs)"
proof -
  have "i \<notin> id' ` set bs \<Longrightarrow> filter (\<lambda>b. id' b \<noteq> i) bs = bs"
    by (induction bs) auto
  then show ?thesis
    by (auto simp: deleteBookmark_def count_list_filter)
qed

theorem deleteBookmark_frame_witness:
  "u ''zz'' \<notin> id' ` set books4
   \<and> deleteBookmark (u ''zz'') books4 = books4
   \<and> map id' (deleteBookmark (u ''a2'') books4) = [u ''a1'', u ''a3'', u ''a4'']
   \<and> subseq (deleteBookmark (u ''a2'') books4) books4"
proof -
  have 1: "u ''zz'' \<notin> id' ` set books4"
    by (simp add: books4_def u_def)
  have 2: "map id' (deleteBookmark (u ''a2'') books4) = [u ''a1'', u ''a3'', u ''a4'']"
    by code_simp
  show ?thesis
    using 1 2 deleteBookmark_frame [of "u ''zz''" books4] deleteBookmark_frame [of "u ''a2''" books4]
    by simp
qed

section \<open>Batch scheduling\<close>

lemma ceil_step: "0 < (n::nat) \<Longrightarrow> Suc ((n - 10 + 9) div 10) = (n + 9) div 10"
proof (cases "10 \<le> n")
  case True
  then obtain m where "n = m + 10" by (metis le_add_diff_inverse2)
  then show ?thesis by simp
next
  case False
  assume "0 < n"
  with False have "n - 10 + 9 = 9" "10 \<le> n + 9" "n + 9 < 20" by simp_all
  then show ?thesis by simp
qed

lemma make_batches_length:
  "length (make_batches i xs) = (length xs - i + (BATCH_SIZE - 1)) div BATCH_SIZE"
proof (induction i xs rule: make_batches.induct)
  case (1 i xs)
  show ?case
  proof (cases "i < length xs")
    case True
    then have "length (make_batches i xs) = Suc (length (make_batches (i + BATCH_SIZE) xs))"
      by (subst make_batches.simps) simp
    also have "\<dots> = Suc ((length xs - (i + BATCH_SIZE) + (BATCH_SIZE - 1)) div BATCH_SIZE)"
      using 1 True by simp
    also have "\<dots> = Suc ((length xs - i - 10 + 9) div 10)"
      by (simp add: BATCH_SIZE_def)
    also have "\<dots> = (length xs - i + 9) div 10"
      using True by (intro ceil_step) simp
    finally show ?thesis by (simp add: BATCH_SIZE_def)
  next
    case False
    then show ?thesis by (subst make_batches.simps) (simp add: BATCH_SIZE_def)
  qed
qed

lemma make_batches_concat:
  "i \<le> length xs \<Longrightarrow> concat (make_batches i xs) = drop i xs"
proof (induction i xs rule: make_batches.induct)
  case (1 i xs)
  show ?case
  proof (cases "i < length xs")
    case True
    note lt = this
    show ?thesis
    proof (cases "i + BATCH_SIZE \<le> length xs")
      case True
      then have "concat (make_batches (i + BATCH_SIZE) xs) = drop (i + BATCH_SIZE) xs"
        using 1 lt by simp
      moreover have "take BATCH_SIZE (drop i xs) @ drop (i + BATCH_SIZE) xs = drop i xs"
        by (metis add.commute append_take_drop_id drop_drop)
      ultimately show ?thesis using lt
        by (subst make_batches.simps) (simp add: slice_def)
    next
      case False
      then have "make_batches (i + BATCH_SIZE) xs = []"
        by (subst make_batches.simps) simp
      then show ?thesis using lt False
        by (subst make_batches.simps) (simp add: slice_def)
    qed
  next
    case False
    then show ?thesis using 1(2) by (subst make_batches.simps) simp
  qed
qed

lemma make_batches_sizes:
  "b \<in> set (make_batches i xs) \<Longrightarrow> 0 < length b \<and> length b \<le> BATCH_SIZE"
proof (induction i xs rule: make_batches.induct)
  case (1 i xs)
  show ?case
  proof (cases "i < length xs")
    case True
    from 1(2) have "b = slice i (i + BATCH_SIZE) xs \<or> b \<in> set (make_batches (i + BATCH_SIZE) xs)"
      using True by (subst (asm) make_batches.simps) simp
    then show ?thesis
    proof
      assume "b = slice i (i + BATCH_SIZE) xs"
      then show ?thesis using True by (simp add: slice_def BATCH_SIZE_def)
    next
      assume "b \<in> set (make_batches (i + BATCH_SIZE) xs)"
      then show ?thesis using 1(1) True by simp
    qed
  next
    case False
    then show ?thesis using 1(2) by (subst (asm) make_batches.simps) simp
  qed
qed

lemma make_batches_full:
  "b \<in> set (butlast (make_batches i xs)) \<Longrightarrow> length b = BATCH_SIZE"
proof (induction i xs rule: make_batches.induct)
  case (1 i xs)
  show ?case
  proof (cases "i < length xs")
    case True
    note lt = this
    have eq: "make_batches i xs = slice i (i + BATCH_SIZE) xs # make_batches (i + BATCH_SIZE) xs"
      using lt by (subst make_batches.simps) simp
    show ?thesis
    proof (cases "make_batches (i + BATCH_SIZE) xs = []")
      case True
      then show ?thesis using 1(2) eq by simp
    next
      case False
      then have more: "i + BATCH_SIZE < length xs"
        by (subst (asm) make_batches.simps) (simp split: if_splits)
      from False 1(2) eq
      have "b = slice i (i + BATCH_SIZE) xs \<or> b \<in> set (butlast (make_batches (i + BATCH_SIZE) xs))"
        by simp
      then show ?thesis
      proof
        assume "b = slice i (i + BATCH_SIZE) xs"
        then show ?thesis using more by (simp add: slice_def)
      next
        assume "b \<in> set (butlast (make_batches (i + BATCH_SIZE) xs))"
        then show ?thesis using 1(1) lt by simp
      qed
    qed
  next
    case False
    then show ?thesis using 1(2) by (subst (asm) make_batches.simps) simp
  qed
qed

lemma run_idle:
  "filter (\<lambda>b. \<not> processed b) bookmarks = [] \<Longrightarrow>
   processUnprocessedBookmarks ai during bookmarks =
     \<lparr> catalog = bookmarks, isProcessing = False, calls = 0, commits = [], alerts = 0, failure = None \<rparr>"
  by (simp add: processUnprocessedBookmarks_def)

text \<open>
  Claim C5. With batch size 10, the scheduler cuts a list of N entries into
  ceil(N / 10) batches whose concatenation, in batch order, is the list itself; every
  batch but the last has 10 entries and no batch is empty. For N = 0 there is no
  batch, and a run over a catalog with no unprocessed entry calls the service 0 times.
\<close>

theorem batch_coverage:
  "BATCH_SIZE = 10
   \<and> length (make_batches 0 unprocessed) = (length unprocessed + (BATCH_SIZE - 1)) div BATCH_SIZE
   \<and> concat (make_batches 0 unprocessed) = unprocessed
   \<and> (\<forall>b \<in> set (butlast (make_batches 0 unprocessed)). length b = BATCH_SIZE)
   \<and> (\<forall>b \<in> set (make_batches 0 unprocessed). 0 < length b \<and> length b \<le> BATCH_SIZE)
   \<and> (unprocessed = [] \<longrightarrow> make_batches 0 unprocessed = [])
   \<and> (filter (\<lambda>b. \<not> processed b) bookmarks = [] \<longrightarrow>
        calls (processUnprocessedBookmarks ai during bookmarks) = 0
        \<and> commits (processUnprocessedBookmarks ai during bookmarks) = []
        \<and> catalog (processUnprocessedBookmarks ai during bookmarks) = bookmarks)"
proof -
  have "length (make_batches 0 unprocessed) = (length unprocessed + (BATCH_SIZE - 1)) div BATCH_SIZE"
    using make_batches_length [of 0 unprocessed] by simp
  moreover have "concat (make_batches 0 unprocessed) = unprocessed"
    using make_batches_concat [of 0 unprocessed] by simp
  moreover have "unprocessed = [] \<longrightarrow> make_batches 0 unprocessed = []"
    by (subst make_batches.simps) simp
  ultimately show ?thesis
    using make_batches_full [of _ 0 unprocessed] make_batches_sizes [of _ 0 unprocessed]
    by (simp add: run_idle BATCH_SIZE_def)
qed

theorem batch_coverage_witness:
  "length (make_batches 0 (replicate 25 (0::nat))) = 3
   \<and> concat (make_batches 0 (replicate 25 (0::nat))) = replicate 25 0
   \<and> filter (\<lambda>b. \<not> processed b) [] = []
   \<and> calls (processUnprocessedBookmarks (\<lambda>k p. Rejected) no_deletes []) = 0"
  using batch_coverage [of "replicate 25 (0::nat)" "[]" "\<lambda>k p. Rejected" no_deletes]
  by (simp add: BATCH_SIZE_def)

section \<open>Category facets and the filtered view\<close>

lemma set_add_set: "set (set_add x s) = insert x (set s)"
  by (auto simp: set_add_def)

lemma set_add_distinct: "distinct s \<Longrightarrow> distinct (set_add x s)"
  by (auto simp: set_add_def)

lemma cats_fold_set:
  "set (fold (\<lambda>b cats. case category b of
                       None \<Rightarrow> cats
                     | Some c \<Rightarrow> if truthy (Some c) then set_add c cats else cats) bs acc)
   = set acc \<union> {c. c \<noteq> [] \<and> Some c \<in> category ` set bs}"
proof (induction bs arbitrary: acc)
  case Nil
  then show ?case by simp
next
  case (Cons b bs)
  show ?case
    by (cases \<open>category b\<close>) (auto simp: Cons.IH set_add_set truthy_def image_iff)
qed

lemma cats_fold_distinct:
  "distinct acc \<Longrightarrow>
   distinct (fold (\<lambda>b cats. case category b of
                       None \<Rightarrow> cats
                     | Some c \<Rightarrow> if truthy (Some c) then set_add c cats else cats) bs acc)"
proof (induction bs arbitrary: acc)
  case Nil
  then show ?case by simp
next
  case (Cons b bs)
  show ?case
    by (cases \<open>category b\<close>) (auto intro!: Cons.IH simp: Cons.prems set_add_distinct)
qed

lemma includes_str_sublist: "includes_str s t \<longleftrightarrow> sublist t s"
  by (induction s) (auto simp: sublist_Cons_right)

lemma toLowerCase_empty: "toLowerCase beyond [] = []"
  by (simp add: toLowerCase_def basic_latin_def)

lemma matchesSearch_empty: "matchesSearch beyond [] b"
  by (simp add: matchesSearch_def toLowerCase_empty includes_str_sublist)

text \<open>
  Claim C8. The facet list is "All", then the distinct non-empty category values of
  the catalog in ascending order of their code units (upper case before lower
  case), then "Uncategorized". With the empty query, the facet "Uncategorized"
  selects exactly the entries with no category (absent or empty), in catalog order;
  \<open>processed\<close> plays no part.
\<close>

theorem category_facets:
  "categories bs
     = [u ''All''] @ sorted_list_of_set {c. c \<noteq> [] \<and> Some c \<in> category ` set bs} @ [u ''Uncategorized'']
   \<and> filteredBookmarks beyond bs [] (u ''Uncategorized'') = filter no_category bs"
proof -
  have "sort (cats_of bs) = sorted_list_of_set (set (cats_of bs))"
    using cats_fold_distinct [of "[]" bs]
    by (simp add: cats_of_def sorted_list_of_set_sort_remdups distinct_remdups_id)
  moreover have "set (cats_of bs) = {c. c \<noteq> [] \<and> Some c \<in> category ` set bs}"
    using cats_fold_set [of bs "[]"] by (simp add: cats_of_def)
  moreover have "filter (\<lambda>b. \<not> truthy (category b)) bs = filter no_category bs"
    by (rule filter_cong) (auto simp: truthy_def no_category_def split: option.splits)
  moreover have "u ''Uncategorized'' \<noteq> u ''All''"
    by (simp add: u_def)
  ultimately show ?thesis
    by (simp add: categories_def filteredBookmarks_def matchesSearch_empty matchesCategory_def)
qed

theorem category_facets_witness:
  "categories books4 = [u ''All'', u ''Backend'', u ''Frontend'', u ''Uncategorized'']
   \<and> [u ''All''] @ sorted_list_of_set {c. c \<noteq> [] \<and> Some c \<in> category ` set books4}
       @ [u ''Uncategorized'']
     = [u ''All'', u ''Backend'', u ''Frontend'', u ''Uncategorized'']
   \<and> map id' (filter no_category books4) = [u ''a4'']"
proof -
  have "categories books4 = [u ''All'', u ''Backend'', u ''Frontend'', u ''Uncategorized'']"
    by code_simp
  moreover have "map id' (filteredBookmarks (\<lambda>s. s) books4 [] (u ''Uncategorized'')) = [u ''a4'']"
    by code_simp
  ultimately show ?thesis
    using category_facets [of books4 "\<lambda>s. s"] by simp
qed












section \<open>Importing\<close>

lemma newBookmarks_urls: "map url (newBookmarks gen now links) = map href (take 50 links)"
proof -
  have "map url (newBookmarks gen now links) = map (href \<circ> snd) (enumerate 0 (take 50 links))"
    by (simp add: newBookmarks_def case_prod_beta comp_def)
  also have "\<dots> = map href (map snd (enumerate 0 (take 50 links)))"
    by (simp only: map_map)
  finally show ?thesis by simp
qed

lemma import_links_urls:
  "map url (import_links gen now links bs)
     = map url bs @ filter (\<lambda>w. w \<notin> set (map url bs)) (map href (take 50 links))"
proof -
  have "filter (\<lambda>w. w \<notin> set (map url bs)) (map url (newBookmarks gen now links))
      = map url (filter (\<lambda>b. url b \<notin> set (map url bs)) (newBookmarks gen now links))"
    by (simp add: filter_map comp_def)
  then show ?thesis
    by (simp add: import_links_def parseBookmarksHTML_def Let_def newBookmarks_urls)
qed

lemma import_links_again:
  "import_links gen2 now2 links (import_links gen1 now1 links bs) = import_links gen1 now1 links bs"
proof -
  let ?c = "import_links gen1 now1 links bs"
  have "set (map href (take 50 links)) \<subseteq> set (map url ?c)"
    unfolding import_links_urls by auto
  then have "\<forall>b \<in> set (newBookmarks gen2 now2 links). url b \<in> set (map url ?c)"
    using newBookmarks_urls [of gen2 now2 links]
    by (metis (no_types, lifting) image_eqI list.set_map subsetD)
  then have "filter (\<lambda>b. url b \<notin> set (map url ?c)) (newBookmarks gen2 now2 links) = []"
    by (simp add: filter_empty_conv)
  then show ?thesis
    by (simp add: import_links_def [of gen2] parseBookmarksHTML_def Let_def)
qed

lemma import_links_distinct:
  assumes "distinct (map url bs)" "distinct (map href (take 50 links))"
  shows "distinct (map url (import_links gen now links bs))"
  unfolding import_links_urls using assms by (auto simp: distinct_filter)

lemma count_list_1: "distinct xs \<Longrightarrow> x \<in> set xs \<Longrightarrow> count_list xs x = 1"
  by (induction xs) (auto simp: count_list_0_iff)

text \<open>
  Claim C6, as the code has it. A second import of the same links adds no entry,
  whatever ids and timestamps it draws. When the catalog's urls are pairwise distinct
  and so are the urls of the first 50 links, each of these urls occurs exactly once
  in the catalog after the two imports.
\<close>

theorem import_twice:
  "import_links gen2 now2 links (import_links gen1 now1 links bs) = import_links gen1 now1 links bs
   \<and> (distinct (map url bs) \<and> distinct (map href (take 50 links)) \<longrightarrow>
        (\<forall>w \<in> set (map href (take 50 links)).
           count_list (map url (import_links gen2 now2 links (import_links gen1 now1 links bs))) w = 1))"
proof -
  have "w \<in> set (map url (import_links gen1 now1 links bs))"
    if "w \<in> set (map href (take 50 links))" for w
    using that unfolding import_links_urls by auto
  then show ?thesis
    using import_links_distinct [of bs links gen1 now1]
    by (auto simp only: import_links_again intro!: count_list_1)
qed

theorem import_twice_witness:
  "distinct (map url ([] :: BookmarkItem list))
   \<and> distinct (map href (take 50 two_links))
   \<and> (u ''https://a.example/'') \<in> set (map href (take 50 two_links))
   \<and> map title (import_links gen0 now0 two_links (import_links gen0 now0 two_links []))
     = [u ''A'', u ''Untitled'']
   \<and> count_list (map url (import_links gen0 now0 two_links (import_links gen0 now0 two_links [])))
       (u ''https://a.example/'') = 1"
proof -
  have h: "distinct (map url ([] :: BookmarkItem list))" "distinct (map href (take 50 two_links))"
    "(u ''https://a.example/'') \<in> set (map href (take 50 two_links))"
    by (simp_all add: two_links_def u_def)
  have t: "map title (import_links gen0 now0 two_links (import_links gen0 now0 two_links []))
     = [u ''A'', u ''Untitled'']"
    by code_simp
  from h t import_twice [of gen0 now0 two_links gen0 now0 "[]"] show ?thesis
    by blast
qed

text \<open>
  Claim C6 as stated fails: a source that lists one url twice leaves that url twice
  in the catalog, the candidates being checked against the catalog only.
\<close>

theorem import_twice_counterexample:
  "count_list (map url (import_links gen0 now0 dup_links (import_links gen0 now0 dup_links [])))
     (u ''https://a.example/'') = 2"
  by code_simp

section \<open>Hard failures of a batch\<close>

lemma merge_item_isl: "isl (merge_item batch x m) \<longleftrightarrow> x = ItemNull"
  by (auto simp: merge_item_def split: processedItem.splits option.splits)

lemma merge_items_isl: "isl (merge_items batch xs m) \<longleftrightarrow> ItemNull \<in> set xs"
proof (induction xs arbitrary: m)
  case Nil
  then show ?case by simp
next
  case (Cons x xs)
  show ?case
  proof (cases "merge_item batch x m")
    case (Inl e)
    then show ?thesis using merge_item_isl [of batch x m] by simp
  next
    case (Inr m')
    then show ?thesis using merge_item_isl [of batch x m] Cons.IH [of m'] by auto
  qed
qed

lemma process_batch_isl:
  "isl (process_batch ai k batch m) \<longleftrightarrow> throws (ai k (map (\<lambda>b. (title b, url b)) batch))"
proof (cases "ai k (map (\<lambda>b. (title b, url b)) batch)")
  case Rejected
  then show ?thesis by (simp add: process_batch_def)
next
  case (Responded b)
  then show ?thesis
    by (cases "Responded b" rule: throws.cases)
       (auto simp: process_batch_def parse_text_def merge_result_def merge_items_isl)
qed

text \<open>
  Claim C7, as the code has it. An iteration throws exactly on the responses of
  \<open>throws\<close>: a rejected call, a body that is not JSON, the JSON value \<open>null\<close>, an \<open>items\<close>
  property that is a number, string, boolean or object, and an \<open>items\<close> array with a
  \<open>null\<close> element. The run then ends there: one more call was made, nothing is
  committed, one alert is shown and the failure is recorded. Every other response is
  accepted: the map it leaves is committed and the loop goes on with the next batch.
  A response that hands no item to the merge step and does not throw (an absent or
  empty body, a JSON value that is not an object, an object whose \<open>items\<close> is missing,
  \<open>null\<close> or empty) leaves the map as it was.
\<close>

theorem hard_failure:
  "(isl (process_batch ai k batch m) \<longleftrightarrow> throws (ai k (map (\<lambda>b. (title b, url b)) batch)))
   \<and> (throws (ai k (map (\<lambda>b. (title b, url b)) batch)) \<longrightarrow>
        calls (batch_loop ai during k (batch # rest) m st) = calls st + 1
        \<and> commits (batch_loop ai during k (batch # rest) m st) = commits st
        \<and> alerts (batch_loop ai during k (batch # rest) m st) = alerts st + 1
        \<and> failure (batch_loop ai during k (batch # rest) m st) \<noteq> None)
   \<and> (\<not> throws (ai k (map (\<lambda>b. (title b, url b)) batch)) \<longrightarrow>
        (\<exists>m'. process_batch ai k batch m = Inr m'
           \<and> batch_loop ai during k (batch # rest) m st
             = batch_loop ai during (k + 1) rest m'
                 (st\<lparr> calls := calls st + 1, catalog := map_values m',
                       commits := commits st @ [map_values m'] \<rparr>)))
   \<and> (\<not> throws (ai k (map (\<lambda>b. (title b, url b)) batch))
        \<and> response_items (ai k (map (\<lambda>b. (title b, url b)) batch)) = [] \<longrightarrow>
        process_batch ai k batch m = Inr m)"
proof -
  let ?r = "ai k (map (\<lambda>b. (title b, url b)) batch)"
  have bad: "throws ?r \<Longrightarrow> \<exists>e. process_batch ai k batch m = Inl e"
    using process_batch_isl [of ai k batch m] by (cases "process_batch ai k batch m") auto
  have ok: "\<not> throws ?r \<Longrightarrow> \<exists>m'. process_batch ai k batch m = Inr m'"
    using process_batch_isl [of ai k batch m] by (cases "process_batch ai k batch m") auto
  have 1: "throws ?r \<longrightarrow>
        calls (batch_loop ai during k (batch # rest) m st) = calls st + 1
        \<and> commits (batch_loop ai during k (batch # rest) m st) = commits st
        \<and> alerts (batch_loop ai during k (batch # rest) m st) = alerts st + 1
        \<and> failure (batch_loop ai during k (batch # rest) m st) \<noteq> None"
    using bad by (auto simp: Let_def)
  have 2: "\<not> throws ?r \<longrightarrow>
        (\<exists>m'. process_batch ai k batch m = Inr m'
           \<and> batch_loop ai during k (batch # rest) m st
             = batch_loop ai during (k + 1) rest m'
                 (st\<lparr> calls := calls st + 1, catalog := map_values m',
                       commits := commits st @ [map_values m'] \<rparr>))"
    using ok by (auto simp: Let_def)
  have 3: "\<not> throws ?r \<and> response_items ?r = [] \<longrightarrow> process_batch ai k batch m = Inr m"
  proof (cases ?r)
    case Rejected
    then show ?thesis by simp
  next
    case (Responded b)
    then show ?thesis
      by (cases "Responded b" rule: throws.cases)
         (auto simp: process_batch_def parse_text_def merge_result_def)
  qed
  show ?thesis
    using process_batch_isl [of ai k batch m] 1 2 3 by blast
qed

theorem hard_failure_witness:
  "throws (garbled 0 (map (\<lambda>b. (title b, url b)) cat2))
   \<and> isl (process_batch garbled 0 cat2 [])
   \<and> alerts (batch_loop garbled no_deletes 0 [cat2, cat2] []
        \<lparr> catalog = cat2, isProcessing = True, calls = 0, commits = [], alerts = 0, failure = None \<rparr>) = 1
   \<and> calls (batch_loop garbled no_deletes 0 [cat2, cat2] []
        \<lparr> catalog = cat2, isProcessing = True, calls = 0, commits = [], alerts = 0, failure = None \<rparr>) = 1
   \<and> \<not> throws (silent 0 (map (\<lambda>b. (title b, url b)) cat2))
   \<and> response_items (silent 0 (map (\<lambda>b. (title b, url b)) cat2)) = []
   \<and> process_batch silent 0 cat2 [] = Inr []"
  using hard_failure [of garbled 0 cat2 "[]" no_deletes "[cat2]"
      "\<lparr> catalog = cat2, isProcessing = True, calls = 0, commits = [], alerts = 0, failure = None \<rparr>"]
    hard_failure [of silent 0 cat2 "[]" no_deletes "[cat2]"
      "\<lparr> catalog = cat2, isProcessing = True, calls = 0, commits = [], alerts = 0, failure = None \<rparr>"]
  by (simp add: garbled_def silent_def)

text \<open>
  Claim C7 as stated fails: a response with no body is read as an empty item list;
  the run completes with no failure and no alert, and commits the catalog unchanged.
\<close>

theorem hard_failure_counterexample:
  "failure (processUnprocessedBookmarks silent no_deletes cat2) = None
   \<and> alerts (processUnprocessedBookmarks silent no_deletes cat2) = 0
   \<and> calls (processUnprocessedBookmarks silent no_deletes cat2) = 1
   \<and> commits (processUnprocessedBookmarks silent no_deletes cat2) = [cat2]"
  by code_simp

section \<open>The run's map and what a commit writes\<close>

lemma map_set_set: "set (map_set k v m) \<subseteq> insert (k, v) (set m)"
  by (induction m) (auto split: if_splits)

lemma map_set_keys: "fst ` set (map_set k v m) = insert k (fst ` set m)"
proof (induction m)
  case Nil
  then show ?case by simp
next
  case (Cons p m)
  then show ?case by (cases p) auto
qed

lemma map_set_distinct: "distinct (map fst m) \<Longrightarrow> distinct (map fst (map_set k v m))"
proof (induction m)
  case Nil
  then show ?case by simp
next
  case (Cons p m)
  then show ?case using map_set_keys [of k v m] by (cases p) auto
qed

lemma map_of_map_set: "map_of (map_set k v m) = (map_of m)(k \<mapsto> v)"
  by (induction m) (auto simp: fun_eq_iff)

lemma fold_map_set_set:
  "set (fold (\<lambda>(k, v) m. map_set k v m) kvs acc) \<subseteq> set kvs \<union> set acc"
proof (induction kvs arbitrary: acc)
  case Nil
  then show ?case by simp
next
  case (Cons p kvs)
  obtain k v where p: "p = (k, v)" by (cases p)
  show ?case using Cons.IH [of "map_set k v acc"] map_set_set [of k v acc]
    by (auto simp: p)
qed

lemma fold_map_set_keys:
  "fst ` set (fold (\<lambda>(k, v) m. map_set k v m) kvs acc) = fst ` set kvs \<union> fst ` set acc"
proof (induction kvs arbitrary: acc)
  case Nil
  then show ?case by simp
next
  case (Cons p kvs)
  obtain k v where p: "p = (k, v)" by (cases p)
  show ?case using Cons.IH [of "map_set k v acc"] map_set_keys [of k v acc]
    by (auto simp: p)
qed

lemma fold_map_set_distinct:
  "distinct (map fst acc) \<Longrightarrow> distinct (map fst (fold (\<lambda>(k, v) m. map_set k v m) kvs acc))"
proof (induction kvs arbitrary: acc)
  case Nil
  then show ?case by simp
next
  case (Cons p kvs)
  obtain k v where p: "p = (k, v)" by (cases p)
  show ?case using Cons.IH [of "map_set k v acc"] map_set_distinct [OF Cons.prems, of k v]
    by (simp add: p)
qed

lemma new_Map_set: "set (new_Map kvs) \<subseteq> set kvs"
  using fold_map_set_set [of kvs "[]"] by (simp add: new_Map_def)

lemma new_Map_keys: "fst ` set (new_Map kvs) = fst ` set kvs"
  using fold_map_set_keys [of kvs "[]"] by (simp add: new_Map_def)

lemma new_Map_distinct: "distinct (map fst (new_Map kvs))"
  using fold_map_set_distinct [of "[]" kvs] by (simp add: new_Map_def)

lemma map_set_append: "k \<notin> fst ` set m \<Longrightarrow> map_set k v m = m @ [(k, v)]"
  by (induction m) auto

lemma fold_map_set_fresh:
  "distinct (map fst kvs) \<Longrightarrow> fst ` set kvs \<inter> fst ` set acc = {} \<Longrightarrow>
   fold (\<lambda>(k, v) m. map_set k v m) kvs acc = acc @ kvs"
proof (induction kvs arbitrary: acc)
  case Nil
  then show ?case by simp
next
  case (Cons p kvs)
  obtain k v where p: "p = (k, v)" by (cases p)
  have "k \<notin> fst ` set acc" using Cons.prems(2) by (auto simp: p)
  then have 1: "map_set k v acc = acc @ [(k, v)]" by (rule map_set_append)
  have "fold (\<lambda>(k, v) m. map_set k v m) kvs (acc @ [(k, v)]) = (acc @ [(k, v)]) @ kvs"
    using Cons.prems by (intro Cons.IH) (auto simp: p)
  then show ?case by (simp add: p 1)
qed

lemma new_Map_distinct_id: "distinct (map fst kvs) \<Longrightarrow> new_Map kvs = kvs"
  using fold_map_set_fresh [of kvs "[]"] by (simp add: new_Map_def)

lemma merge_item_cases:
  assumes "merge_item batch x m = Inr m'"
  shows "m' = m \<or> (\<exists>original it. original \<in> set batch \<and> x = ItemObject it
            \<and> item_url it = Some (url original)
            \<and> m' = map_set (id' original)
                     (original\<lparr> processed := True, category := item_category it,
                                description := item_description it, tags := item_tags it \<rparr>) m)"
proof (cases x)
  case ItemNull
  then show ?thesis using assms by (simp add: merge_item_def)
next
  case ItemOther
  then show ?thesis using assms by (simp add: merge_item_def)
next
  case (ItemObject it)
  show ?thesis
  proof (cases "find (\<lambda>b. Some (url b) = item_url it) batch")
    case None
    then show ?thesis using assms ItemObject by (simp add: merge_item_def)
  next
    case (Some original)
    then have "original \<in> set batch" "Some (url original) = item_url it"
      by (auto simp: find_Some_iff)
    then show ?thesis using assms ItemObject Some by (auto simp: merge_item_def)
  qed
qed

lemma process_batch_items:
  assumes "process_batch ai k batch m = Inr m'"
  shows "\<exists>xs. merge_items batch xs m = Inr m'
        \<and> (xs = [] \<or> ai k (map (\<lambda>b. (title b, url b)) batch) = Responded (Json (ParsedObject (ItemsArray xs))))"
proof (cases "ai k (map (\<lambda>b. (title b, url b)) batch)")
  case Rejected
  then show ?thesis using assms by (simp add: process_batch_def)
next
  case (Responded b)
  then show ?thesis using assms
    by (cases "Responded b" rule: throws.cases)
       (auto simp: process_batch_def parse_text_def merge_result_def)
qed

lemma merge_items_inv:
  assumes step: "\<And>m original it. I m \<Longrightarrow> original \<in> set batch \<Longrightarrow> G it \<Longrightarrow>
            I (map_set (id' original)
                 (original\<lparr> processed := True, category := item_category it,
                            description := item_description it, tags := item_tags it \<rparr>) m)"
    and "\<forall>it. ItemObject it \<in> set xs \<longrightarrow> G it"
    and "I m" and "merge_items batch xs m = Inr m'"
  shows "I m'"
  using assms(2-)
proof (induction xs arbitrary: m)
  case Nil
  then show ?case by simp
next
  case (Cons x xs)
  from Cons.prems(3) obtain m1 where m1: "merge_item batch x m = Inr m1"
    and rest: "merge_items batch xs m1 = Inr m'"
    by (auto split: sum.splits)
  have "I m1"
    using merge_item_cases [OF m1] Cons.prems(1,2) step by auto
  then show ?case using Cons.IH [of m1] Cons.prems(1) rest by simp
qed

lemma process_batch_inv:
  assumes step: "\<And>m original it. I m \<Longrightarrow> original \<in> set batch \<Longrightarrow> G it \<Longrightarrow>
            I (map_set (id' original)
                 (original\<lparr> processed := True, category := item_category it,
                            description := item_description it, tags := item_tags it \<rparr>) m)"
    and svc: "\<And>k p xs it. ai k p = Responded (Json (ParsedObject (ItemsArray xs))) \<Longrightarrow>
            ItemObject it \<in> set xs \<Longrightarrow> G it"
    and "I m" and "process_batch ai k batch m = Inr m'"
  shows "I m'"
proof -
  from process_batch_items [OF assms(4)] obtain xs where
    xs: "merge_items batch xs m = Inr m'"
    "xs = [] \<or> ai k (map (\<lambda>b. (title b, url b)) batch) = Responded (Json (ParsedObject (ItemsArray xs)))"
    by blast
  have "\<forall>it. ItemObject it \<in> set xs \<longrightarrow> G it"
    using xs(2) svc by auto
  then show ?thesis
    using merge_items_inv [of I batch G xs m m'] step assms(3) xs(1) by blast
qed

lemma batch_loop_commits_inv:
  assumes step: "\<And>m original it. I m \<Longrightarrow> original \<in> S \<Longrightarrow> G it \<Longrightarrow>
            I (map_set (id' original)
                 (original\<lparr> processed := True, category := item_category it,
                            description := item_description it, tags := item_tags it \<rparr>) m)"
    and svc: "\<And>k p xs it. ai k p = Responded (Json (ParsedObject (ItemsArray xs))) \<Longrightarrow>
            ItemObject it \<in> set xs \<Longrightarrow> G it"
    and "\<forall>batch \<in> set batches. set batch \<subseteq> S"
    and "I m" and "c \<in> set (commits (batch_loop ai during k batches m st))"
  shows "c \<in> set (commits st) \<or> (\<exists>m'. I m' \<and> c = map_values m')"
  using assms(3-)
proof (induction batches arbitrary: k m st)
  case Nil
  then show ?case by simp
next
  case (Cons batch rest)
  show ?case
  proof (cases "process_batch ai k batch m")
    case (Inl e)
    then show ?thesis using Cons.prems(3) by (simp add: Let_def)
  next
    case (Inr m1)
    have "I m1"
      using process_batch_inv [of I batch G ai m k m1] step svc Cons.prems(1,2) Inr
      by (metis list.set_intros(1) subsetD)
    moreover have "\<forall>b \<in> set rest. set b \<subseteq> S" using Cons.prems(1) by simp
    ultimately have "c \<in> set (commits st) \<or> c = map_values m1 \<or> (\<exists>m'. I m' \<and> c = map_values m')"
      using Cons.IH [of m1 "Suc k"] Cons.prems(3) Inr
      by (fastforce simp: Let_def)
    then show ?thesis using \<open>I m1\<close> by blast
  qed
qed

lemma make_batches_subset:
  "batch \<in> set (make_batches 0 xs) \<Longrightarrow> set batch \<subseteq> set xs"
proof -
  assume "batch \<in> set (make_batches 0 xs)"
  then have "set batch \<subseteq> set (concat (make_batches 0 xs))" by auto
  then show ?thesis using make_batches_concat [of 0 xs] by simp
qed

lemma run_commits_inv:
  assumes step: "\<And>m original it. I m \<Longrightarrow> original \<in> set bs \<Longrightarrow> \<not> processed original \<Longrightarrow> G it \<Longrightarrow>
            I (map_set (id' original)
                 (original\<lparr> processed := True, category := item_category it,
                            description := item_description it, tags := item_tags it \<rparr>) m)"
    and svc: "\<And>k p xs it. ai k p = Responded (Json (ParsedObject (ItemsArray xs))) \<Longrightarrow>
            ItemObject it \<in> set xs \<Longrightarrow> G it"
    and init: "I (new_Map (map (\<lambda>b. (id' b, b)) bs))"
    and c: "c \<in> set (commits (processUnprocessedBookmarks ai during bs))"
  shows "\<exists>m. I m \<and> c = map_values m"
proof -
  let ?un = "filter (\<lambda>b. \<not> processed b) bs"
  let ?st = "\<lparr> catalog = bs, isProcessing = True, calls = 0, commits = [], alerts = 0, failure = None \<rparr>"
  have ne: "?un \<noteq> []"
    using c by (auto simp: processUnprocessedBookmarks_def)
  then have "c \<in> set (commits (batch_loop ai during 0 (make_batches 0 ?un)
                 (new_Map (map (\<lambda>b. (id' b, b)) bs)) ?st))"
    using c by (simp add: processUnprocessedBookmarks_def Let_def)
  moreover have "\<forall>batch \<in> set (make_batches 0 ?un). set batch \<subseteq> {b \<in> set bs. \<not> processed b}"
    using make_batches_subset [of _ ?un] by auto
  ultimately have "c \<in> set (commits ?st) \<or> (\<exists>m'. I m' \<and> c = map_values m')"
    using batch_loop_commits_inv [of I "{b \<in> set bs. \<not> processed b}" G ai
        "make_batches 0 ?un" "new_Map (map (\<lambda>b. (id' b, b)) bs)" c during 0 ?st] step svc init
    by blast
  then show ?thesis by simp
qed

lemma url_inv_init: "url_inv bs (new_Map (map (\<lambda>b. (id' b, b)) bs))"
  using new_Map_set [of "map (\<lambda>b. (id' b, b)) bs"]
  by (auto simp: url_inv_def new_Map_distinct)

lemma url_inv_step:
  assumes "url_inv bs m" "original \<in> set bs" "url v = url original"
  shows "url_inv bs (map_set (id' original) v m)"
proof -
  have "\<exists>b \<in> set bs. id' b = k \<and> url b = url w"
    if "(k, w) \<in> set (map_set (id' original) v m)" for k w
  proof -
    from that map_set_set [of "id' original" v m]
    have "(k, w) = (id' original, v) \<or> (k, w) \<in> set m" by auto
    then show ?thesis using assms by (fastforce simp: url_inv_def)
  qed
  then show ?thesis
    using assms(1) by (auto simp: url_inv_def map_set_distinct)
qed

lemma url_inv_distinct:
  assumes "distinct (map url bs)" "url_inv bs m"
  shows "distinct (map url (map_values m))"
proof -
  have d: "distinct m" using assms(2) by (simp add: url_inv_def distinct_map)
  have "inj_on (url \<circ> snd) (set m)"
  proof (rule inj_onI)
    fix p q assume p: "p \<in> set m" and q: "q \<in> set m" and e: "(url \<circ> snd) p = (url \<circ> snd) q"
    obtain k v where pk: "p = (k, v)" by (cases p)
    obtain k' v' where qk: "q = (k', v')" by (cases q)
    from p pk assms(2) obtain b where b: "b \<in> set bs" "id' b = k" "url b = url v"
      by (auto simp: url_inv_def)
    from q qk assms(2) obtain b' where b': "b' \<in> set bs" "id' b' = k'" "url b' = url v'"
      by (auto simp: url_inv_def)
    have "url b = url b'" using e pk qk b b' by simp
    then have "b = b'" using assms(1) b(1) b'(1) by (auto simp: distinct_map dest: inj_onD)
    then have "k = k'" using b b' by simp
    moreover have "distinct (map fst m)" using assms(2) by (simp add: url_inv_def)
    ultimately have "v = v'" using p q pk qk
      by (metis eq_key_imp_eq_value)
    then show "p = q" using pk qk \<open>k = k'\<close> by simp
  qed
  then have "distinct (map (url \<circ> snd) m)" using d by (simp add: distinct_map)
  then show ?thesis by (simp add: map_values_def)
qed

lemma commit_urls_distinct:
  assumes "distinct (map url bs)" "c \<in> set (commits (processUnprocessedBookmarks ai during bs))"
  shows "distinct (map url c)"
proof -
  have "\<exists>m. url_inv bs m \<and> c = map_values m"
    by (rule run_commits_inv [where I = "url_inv bs" and G = "\<lambda>it. True", OF _ _ _ assms(2)])
       (auto intro: url_inv_step url_inv_init)
  then show ?thesis using url_inv_distinct [OF assms(1)] by blast
qed

lemma parse_urls:
  "map url (parseBookmarksHTML gen now links captured live)
     = map url live @ filter (\<lambda>w. w \<notin> set (map url captured)) (map href (take 50 links))"
proof -
  have "filter (\<lambda>w. w \<notin> set (map url captured)) (map url (newBookmarks gen now links))
      = map url (filter (\<lambda>b. url b \<notin> set (map url captured)) (newBookmarks gen now links))"
    by (simp add: filter_map comp_def)
  then show ?thesis
    by (simp add: parseBookmarksHTML_def Let_def newBookmarks_urls)
qed

lemma parse_distinct:
  assumes "distinct (map url live)" "careful_import links captured live"
  shows "distinct (map url (parseBookmarksHTML gen now links captured live))"
  unfolding parse_urls using assms by (auto simp: careful_import_def distinct_filter)

text \<open>
  Claim C2, as the code has it. In every catalog reachable from the empty one by
  careful imports (pairwise distinct urls among the first 50 links, and deduplicated
  against a catalog that holds every url of the catalog appended to), by deletes and
  by per-batch commits of runs against any service, no two entries share a url.
\<close>

theorem url_unique:
  "reachable careful_import any_service c \<Longrightarrow> distinct (map url c)"
proof (induction rule: reachable.induct)
  case start
  then show ?case by simp
next
  case (imported captured live links gen now)
  then show ?case by (simp add: parse_distinct)
next
  case (deleted c i)
  then show ?case by (simp add: deleteBookmark_def distinct_map_filter)
next
  case (committed c ai c' during)
  then show ?case using commit_urls_distinct by blast
qed

text \<open>
  Claim C2 as stated fails: importing a source that lists one url twice into the
  empty catalog gives a catalog with that url twice. So does an import of a
  duplicate-free source whose handler captured the empty catalog, when the same
  source has been imported in between.
\<close>

theorem url_unique_counterexample:
  "reachable any_import any_service (parseBookmarksHTML gen0 now0 dup_links [] [])
   \<and> map url (parseBookmarksHTML gen0 now0 dup_links [] [])
     = [u ''https://a.example/'', u ''https://a.example/'']
   \<and> reachable any_import any_service (parseBookmarksHTML gen0 now0 two_links [] cat2)
   \<and> map url (parseBookmarksHTML gen0 now0 two_links [] cat2)
     = [u ''https://a.example/'', u ''https://b.example/'',
        u ''https://a.example/'', u ''https://b.example/'']"
proof -
  have e: "reachable any_import any_service []"
    by (rule reachable.start)
  have a: "any_import links captured live" for links captured live
    by (simp add: any_import_def)
  have 1: "reachable any_import any_service (parseBookmarksHTML gen0 now0 dup_links [] [])"
    using e e a by (rule reachable.imported)
  have "reachable any_import any_service cat2"
    unfolding cat2_def import_links_def using e e a by (rule reachable.imported)
  with e have 2: "reachable any_import any_service (parseBookmarksHTML gen0 now0 two_links [] cat2)"
    using a by (rule reachable.imported)
  have 3: "map url (parseBookmarksHTML gen0 now0 dup_links [] [])
      = [u ''https://a.example/'', u ''https://a.example/'']
    \<and> map url (parseBookmarksHTML gen0 now0 two_links [] cat2)
      = [u ''https://a.example/'', u ''https://b.example/'',
         u ''https://a.example/'', u ''https://b.example/'']"
    by code_simp
  show ?thesis using 1 2 3 by simp
qed

lemma cat2_done_reachable:
  assumes "admits two_links [] []" "services helpful"
  shows "reachable admits services
           (deleteBookmark (u ''id'') (last (commits (processUnprocessedBookmarks helpful no_deletes cat2))))"
proof -
  have e: "reachable admits services []"
    by (rule reachable.start)
  have "reachable admits services cat2"
    unfolding cat2_def import_links_def using e e assms(1) by (rule reachable.imported)
  moreover note assms(2)
  moreover have "commits (processUnprocessedBookmarks helpful no_deletes cat2) \<noteq> []"
    by code_simp
  then have "last (commits (processUnprocessedBookmarks helpful no_deletes cat2))
      \<in> set (commits (processUnprocessedBookmarks helpful no_deletes cat2))"
    by simp
  ultimately have "reachable admits services
      (last (commits (processUnprocessedBookmarks helpful no_deletes cat2)))"
    by (rule reachable.committed)
  then show ?thesis by (rule reachable.deleted)
qed

theorem url_unique_witness:
  "reachable careful_import any_service
     (deleteBookmark (u ''id'') (last (commits (processUnprocessedBookmarks helpful no_deletes cat2))))
   \<and> distinct (map url
       (deleteBookmark (u ''id'') (last (commits (processUnprocessedBookmarks helpful no_deletes cat2)))))
   \<and> map url (deleteBookmark (u ''id'') (last (commits (processUnprocessedBookmarks helpful no_deletes cat2))))
     = [u ''https://b.example/'']"
proof -
  have r: "reachable careful_import any_service
     (deleteBookmark (u ''id'') (last (commits (processUnprocessedBookmarks helpful no_deletes cat2))))"
    by (rule cat2_done_reachable) (simp_all add: careful_import_def two_links_def any_service_def u_def)
  have "map url (deleteBookmark (u ''id'') (last (commits (processUnprocessedBookmarks helpful no_deletes cat2))))
     = [u ''https://b.example/'']"
    by code_simp
  then show ?thesis using r url_unique [OF r] by simp
qed

lemma complete_inv_init:
  "\<forall>b \<in> set bs. processed b \<longrightarrow> complete b \<Longrightarrow> complete_inv (new_Map (map (\<lambda>b. (id' b, b)) bs))"
  using new_Map_set [of "map (\<lambda>b. (id' b, b)) bs"]
  by (auto simp: complete_inv_def)

lemma complete_inv_step:
  assumes "complete_inv m" "complete_item it"
  shows "complete_inv (map_set k
           (original\<lparr> processed := True, category := item_category it,
                      description := item_description it, tags := item_tags it \<rparr>) m)"
proof -
  let ?v = "original\<lparr> processed := True, category := item_category it,
                      description := item_description it, tags := item_tags it \<rparr>"
  have "complete ?v" using assms(2) by (simp add: complete_def complete_item_def)
  moreover have "p = (k, ?v) \<or> p \<in> set m" if "p \<in> set (map_set k ?v m)" for p
    using that map_set_set [of k ?v m] by auto
  ultimately show ?thesis
    using assms(1) unfolding complete_inv_def by blast
qed

lemma commit_complete:
  assumes "\<forall>b \<in> set bs. processed b \<longrightarrow> complete b" "complete_service ai"
    and "c \<in> set (commits (processUnprocessedBookmarks ai during bs))"
  shows "\<forall>b \<in> set c. processed b \<longrightarrow> complete b"
proof -
  have "\<exists>m. complete_inv m \<and> c = map_values m"
  proof (rule run_commits_inv [where I = complete_inv and G = complete_item, OF _ _ _ assms(3)])
    show "complete_inv (new_Map (map (\<lambda>b. (id' b, b)) bs))"
      using assms(1) by (rule complete_inv_init)
  next
    fix k p xs it
    assume "ai k p = Responded (Json (ParsedObject (ItemsArray xs)))" "ItemObject it \<in> set xs"
    then show "complete_item it" using assms(2) unfolding complete_service_def by blast
  qed (rule complete_inv_step)
  then show ?thesis by (fastforce simp: complete_inv_def map_values_def)
qed

text \<open>
  Claim C4, as the code has it. In every catalog reachable from the empty one by
  imports, deletes and per-batch commits of runs against services whose items are
  complete, every processed entry has a non-empty category, description and tags.
  An import may have captured any earlier catalog.
\<close>

theorem processed_complete:
  "reachable any_import complete_service c \<Longrightarrow> \<forall>b \<in> set c. processed b \<longrightarrow> complete b"
proof (induction rule: reachable.induct)
  case start
  then show ?case by simp
next
  case (imported captured live links gen now)
  have "\<forall>b \<in> set (newBookmarks gen now links). \<not> processed b"
    by (auto simp: newBookmarks_def)
  then show ?case using imported.IH
    by (auto simp: parseBookmarksHTML_def Let_def)
next
  case (deleted c i)
  then show ?case by (simp add: deleteBookmark_def)
next
  case (committed c ai c' during)
  then show ?case using commit_complete by blast
qed

lemma helpful_complete: "complete_service helpful"
  by (auto simp: complete_service_def helpful_def complete_item_def u_def)

theorem processed_complete_witness:
  "reachable any_import complete_service
     (deleteBookmark (u ''id'') (last (commits (processUnprocessedBookmarks helpful no_deletes cat2))))
   \<and> map processed
       (deleteBookmark (u ''id'') (last (commits (processUnprocessedBookmarks helpful no_deletes cat2))))
     = [True]
   \<and> list_all complete
       (deleteBookmark (u ''id'') (last (commits (processUnprocessedBookmarks helpful no_deletes cat2))))"
proof -
  have r: "reachable any_import complete_service
     (deleteBookmark (u ''id'') (last (commits (processUnprocessedBookmarks helpful no_deletes cat2))))"
    by (rule cat2_done_reachable) (simp_all add: any_import_def helpful_complete)
  have p: "map processed
       (deleteBookmark (u ''id'') (last (commits (processUnprocessedBookmarks helpful no_deletes cat2))))
     = [True]"
    by code_simp
  have "list_all processed
       (deleteBookmark (u ''id'') (last (commits (processUnprocessedBookmarks helpful no_deletes cat2))))"
    by code_simp
  then show ?thesis using r p processed_complete [OF r] by (simp add: list_all_iff)
qed

text \<open>
  Claim C4 as stated fails: the merge step copies the three fields from the response
  item without looking at them, so an item that carries the url alone leaves the
  entry processed with no category, description or tags.
\<close>

theorem processed_complete_counterexample:
  "reachable any_import any_service (last (commits (processUnprocessedBookmarks bare no_deletes cat2)))
   \<and> map processed (last (commits (processUnprocessedBookmarks bare no_deletes cat2))) = [True, True]
   \<and> map category (last (commits (processUnprocessedBookmarks bare no_deletes cat2))) = [None, None]
   \<and> map description (last (commits (processUnprocessedBookmarks bare no_deletes cat2))) = [None, None]
   \<and> map tags (last (commits (processUnprocessedBookmarks bare no_deletes cat2))) = [None, None]"
proof -
  have "reachable any_import any_service cat2"
    unfolding cat2_def import_links_def
    by (rule reachable.imported) (simp_all add: reachable.start any_import_def)
  moreover have "any_service bare" by (simp add: any_service_def)
  moreover have "commits (processUnprocessedBookmarks bare no_deletes cat2) \<noteq> []"
    by code_simp
  then have "last (commits (processUnprocessedBookmarks bare no_deletes cat2))
      \<in> set (commits (processUnprocessedBookmarks bare no_deletes cat2))"
    by simp
  ultimately have "reachable any_import any_service
      (last (commits (processUnprocessedBookmarks bare no_deletes cat2)))"
    by (rule reachable.committed)
  moreover have "map processed (last (commits (processUnprocessedBookmarks bare no_deletes cat2))) = [True, True]
   \<and> map category (last (commits (processUnprocessedBookmarks bare no_deletes cat2))) = [None, None]
   \<and> map description (last (commits (processUnprocessedBookmarks bare no_deletes cat2))) = [None, None]
   \<and> map tags (last (commits (processUnprocessedBookmarks bare no_deletes cat2))) = [None, None]"
    by code_simp
  ultimately show ?thesis by simp
qed

section \<open>Deleting while a run is in flight: what the run does\<close>

lemma id_inv_init: "id_inv bs (new_Map (map (\<lambda>b. (id' b, b)) bs))"
proof -
  have "fst ` set (new_Map (map (\<lambda>b. (id' b, b)) bs)) = id' ` set bs"
    by (simp add: new_Map_keys image_image)
  then show ?thesis
    using new_Map_set [of "map (\<lambda>b. (id' b, b)) bs"] by (auto simp: id_inv_def)
qed

lemma id_inv_step:
  assumes "id_inv bs m" "original \<in> set bs" "id' v = id' original"
  shows "id_inv bs (map_set (id' original) v m)"
proof -
  have "fst ` set (map_set (id' original) v m) = id' ` set bs"
    using assms(1,2) by (auto simp: map_set_keys id_inv_def)
  moreover have "p = (id' original, v) \<or> p \<in> set m" if "p \<in> set (map_set (id' original) v m)" for p
    using that map_set_set [of "id' original" v m] by auto
  ultimately show ?thesis
    using assms(1,3) unfolding id_inv_def by fastforce
qed

lemma id_inv_values: "id_inv bs m \<Longrightarrow> id' ` set (map_values m) = id' ` set bs"
proof -
  assume a: "id_inv bs m"
  then have "\<forall>p \<in> set m. id' (snd p) = fst p" by (auto simp: id_inv_def)
  then have "id' ` snd ` set m = fst ` set m" by (force simp: image_iff)
  then show ?thesis using a by (simp add: id_inv_def map_values_def)
qed

lemma commit_ids:
  assumes "c \<in> set (commits (processUnprocessedBookmarks ai during bs))"
  shows "id' ` set c = id' ` set bs"
proof -
  have "\<exists>m. id_inv bs m \<and> c = map_values m"
    by (rule run_commits_inv [where I = "id_inv bs" and G = "\<lambda>it. True", OF _ _ _ assms])
       (auto intro: id_inv_step id_inv_init)
  then show ?thesis using id_inv_values by blast
qed

lemma batch_loop_deletes:
  assumes "commits st = commits st'" "failure st = failure st'" "alerts st = alerts st'"
    "calls st = calls st'"
  shows "commits (batch_loop ai d k batches m st) = commits (batch_loop ai d' k batches m st')
       \<and> failure (batch_loop ai d k batches m st) = failure (batch_loop ai d' k batches m st')
       \<and> alerts (batch_loop ai d k batches m st) = alerts (batch_loop ai d' k batches m st')
       \<and> calls (batch_loop ai d k batches m st) = calls (batch_loop ai d' k batches m st')"
  using assms
proof (induction batches arbitrary: k m st st')
  case Nil
  then show ?case by simp
next
  case (Cons batch rest)
  show ?case
  proof (cases "process_batch ai k batch m")
    case (Inl e)
    then show ?thesis using Cons.prems by (simp add: Let_def)
  next
    case (Inr m1)
    let ?s = "st\<lparr> calls := calls st + 1, catalog := map_values m1,
                  commits := commits st @ [map_values m1] \<rparr>"
    let ?s' = "st'\<lparr> calls := calls st' + 1, catalog := map_values m1,
                  commits := commits st' @ [map_values m1] \<rparr>"
    have "commits ?s = commits ?s'" "failure ?s = failure ?s'" "alerts ?s = alerts ?s'"
      "calls ?s = calls ?s'"
      using Cons.prems by simp_all
    from Cons.IH [OF this, of "k + 1" m1] show ?thesis
      using Inr by (simp add: Let_def)
  qed
qed

lemma batch_loop_final:
  assumes "failure st = None" "batches \<noteq> []"
    "failure (batch_loop ai d k batches m st) = None"
  shows "commits (batch_loop ai d k batches m st) \<noteq> []
       \<and> catalog (batch_loop ai d k batches m st) = last (commits (batch_loop ai d k batches m st))"
  using assms
proof (induction batches arbitrary: k m st)
  case Nil
  then show ?case by simp
next
  case (Cons batch rest)
  show ?case
  proof (cases "process_batch ai k batch m")
    case (Inl e)
    then show ?thesis using Cons.prems(3) by (simp add: Let_def)
  next
    case (Inr m1)
    let ?s = "st\<lparr> calls := calls st + 1, catalog := map_values m1,
                  commits := commits st @ [map_values m1] \<rparr>"
    have eq: "batch_loop ai d k (batch # rest) m st = batch_loop ai d (k + 1) rest m1 ?s"
      using Inr by (simp add: Let_def)
    show ?thesis
    proof (cases "rest = []")
      case True
      then show ?thesis using eq by simp
    next
      case False
      have "failure ?s = None" using Cons.prems(1) by simp
      from Cons.IH [OF this False, of "k + 1" m1] Cons.prems(3) eq show ?thesis by simp
    qed
  qed
qed

text \<open>
  What a run does with deletions made while its calls are outstanding: they change
  neither its failure, nor its alerts, nor what it commits. Every commit holds an
  entry for exactly the ids of the catalog the run started on, and a run that ends
  without failure leaves its last commit as the catalog. The import and the delete
  handler update the live catalog (\<^verbatim>\<open>setBookmarks(prev => ...)\<close>); the commit of line 188
  alone overwrites it from the snapshot of line 127.
\<close>

lemma commits_ignore_deletes:
  "failure (processUnprocessedBookmarks ai during bs) = failure (processUnprocessedBookmarks ai no_deletes bs)
   \<and> alerts (processUnprocessedBookmarks ai during bs) = alerts (processUnprocessedBookmarks ai no_deletes bs)
   \<and> commits (processUnprocessedBookmarks ai during bs) = commits (processUnprocessedBookmarks ai no_deletes bs)
   \<and> (\<forall>c \<in> set (commits (processUnprocessedBookmarks ai during bs)). id' ` set c = id' ` set bs)
   \<and> (failure (processUnprocessedBookmarks ai during bs) = None
        \<and> commits (processUnprocessedBookmarks ai during bs) \<noteq> [] \<longrightarrow>
      catalog (processUnprocessedBookmarks ai during bs)
        = last (commits (processUnprocessedBookmarks ai during bs)))"
proof -
  let ?un = "filter (\<lambda>b. \<not> processed b) bs"
  let ?st = "\<lparr> catalog = bs, isProcessing = True, calls = 0, commits = [], alerts = 0, failure = None \<rparr>"
  let ?m = "new_Map (map (\<lambda>b. (id' b, b)) bs)"
  show ?thesis
  proof (cases "?un = []")
    case True
    then show ?thesis by (simp add: run_idle)
  next
    case False
    have r: "processUnprocessedBookmarks ai d bs
         = (batch_loop ai d 0 (make_batches 0 ?un) ?m ?st)\<lparr> isProcessing := False \<rparr>" for d
      using False by (simp add: processUnprocessedBookmarks_def Let_def)
    have ne: "make_batches 0 ?un \<noteq> []"
      using False by (subst make_batches.simps) simp
    have 1: "commits (batch_loop ai during 0 (make_batches 0 ?un) ?m ?st)
           = commits (batch_loop ai no_deletes 0 (make_batches 0 ?un) ?m ?st)
         \<and> failure (batch_loop ai during 0 (make_batches 0 ?un) ?m ?st)
           = failure (batch_loop ai no_deletes 0 (make_batches 0 ?un) ?m ?st)
         \<and> alerts (batch_loop ai during 0 (make_batches 0 ?un) ?m ?st)
           = alerts (batch_loop ai no_deletes 0 (make_batches 0 ?un) ?m ?st)
         \<and> calls (batch_loop ai during 0 (make_batches 0 ?un) ?m ?st)
           = calls (batch_loop ai no_deletes 0 (make_batches 0 ?un) ?m ?st)"
      by (rule batch_loop_deletes) simp_all
    have 2: "failure (batch_loop ai during 0 (make_batches 0 ?un) ?m ?st) = None \<Longrightarrow>
        catalog (batch_loop ai during 0 (make_batches 0 ?un) ?m ?st)
          = last (commits (batch_loop ai during 0 (make_batches 0 ?un) ?m ?st))"
      using batch_loop_final [of ?st "make_batches 0 ?un" ai during 0 ?m] ne by simp
    show ?thesis
      using 1 2 commit_ids [of _ ai during bs] by (simp add: r)
  qed
qed

text \<open>
  Claim C1: an entry deleted after a run has started, before a later batch's
  response is merged, raises no error and is in the catalog neither after a later
  commit nor at the end of the run. The code raises no error, but it brings the
  entry back. Here the last of eleven entries is deleted while the first call is
  outstanding (the catalog then has ten entries); the run completes without failure
  after two calls, and both commits and the final catalog hold the deleted entry
  again.
\<close>

theorem delete_during_run_resurrects:
  "map id' (fold deleteBookmark (delete_last 0) cat11)
     = [u ''id'', u ''idx'', u ''idxx'', u ''idxxx'', u ''idxxxx'', u ''idxxxxx'', u ''idxxxxxx'', u ''idxxxxxxx'',
        u ''idxxxxxxxx'', u ''idxxxxxxxxx'']
   \<and> failure (processUnprocessedBookmarks helpful delete_last cat11) = None
   \<and> calls (processUnprocessedBookmarks helpful delete_last cat11) = 2
   \<and> map (map id') (commits (processUnprocessedBookmarks helpful delete_last cat11))
     = [[u ''id'', u ''idx'', u ''idxx'', u ''idxxx'', u ''idxxxx'', u ''idxxxxx'', u ''idxxxxxx'', u ''idxxxxxxx'',
         u ''idxxxxxxxx'', u ''idxxxxxxxxx'', u ''idxxxxxxxxxx''],
        [u ''id'', u ''idx'', u ''idxx'', u ''idxxx'', u ''idxxxx'', u ''idxxxxx'', u ''idxxxxxx'', u ''idxxxxxxx'',
         u ''idxxxxxxxx'', u ''idxxxxxxxxx'', u ''idxxxxxxxxxx'']]
   \<and> map id' (catalog (processUnprocessedBookmarks helpful delete_last cat11))
     = [u ''id'', u ''idx'', u ''idxx'', u ''idxxx'', u ''idxxxx'', u ''idxxxxx'', u ''idxxxxxx'', u ''idxxxxxxx'',
        u ''idxxxxxxxx'', u ''idxxxxxxxxx'', u ''idxxxxxxxxxx'']"
  by code_simp

section \<open>A run that fails part-way: what is left\<close>

lemma item_urls_Cons:
  "w \<in> set (item_urls (x # xs)) \<longleftrightarrow>
     (\<exists>it. x = ItemObject it \<and> item_url it = Some w) \<or> w \<in> set (item_urls xs)"
  by (auto simp: item_urls_def map_filter_simps split: processedItem.splits option.splits)

lemma find_unique:
  "distinct (map f xs) \<Longrightarrow> e \<in> set xs \<Longrightarrow> find (\<lambda>b. Some (f b) = Some (f e)) xs = Some e"
  by (induction xs) (auto simp: image_iff)

lemma merge_item_other:
  assumes "merge_item batch x m = Inr m1" "i \<notin> id' ` set batch"
  shows "map_of m1 i = map_of m i"
  using merge_item_cases [OF assms(1)] assms(2) by (auto simp: map_of_map_set)

lemma merge_item_hit:
  assumes "merge_item batch (ItemObject it) m = Inr m1" "distinct (map url batch)"
    "e \<in> set batch" "item_url it = Some (url e)"
  shows "\<exists>v. map_of m1 (id' e) = Some v \<and> enriched_from e v"
proof -
  have "find (\<lambda>b. Some (url b) = item_url it) batch = Some e"
    using find_unique [of url batch e] assms(2-4) by simp
  then have "m1 = map_set (id' e) (e\<lparr> processed := True, category := item_category it,
                 description := item_description it, tags := item_tags it \<rparr>) m"
    using assms(1) by (simp add: merge_item_def)
  then show ?thesis by (simp add: map_of_map_set enriched_from_def)
qed

lemma merge_item_miss:
  assumes "merge_item batch x m = Inr m1" "distinct (map id' batch)"
    "e \<in> set batch" "\<not> (\<exists>it. x = ItemObject it \<and> item_url it = Some (url e))"
  shows "map_of m1 (id' e) = map_of m (id' e)"
proof -
  from merge_item_cases [OF assms(1)] show ?thesis
  proof
    assume "m1 = m"
    then show ?thesis by simp
  next
    assume "\<exists>original it. original \<in> set batch \<and> x = ItemObject it
            \<and> item_url it = Some (url original)
            \<and> m1 = map_set (id' original)
                     (original\<lparr> processed := True, category := item_category it,
                                description := item_description it, tags := item_tags it \<rparr>) m"
    then obtain original it where o: "original \<in> set batch" "x = ItemObject it"
      "item_url it = Some (url original)"
      "m1 = map_set (id' original)
                     (original\<lparr> processed := True, category := item_category it,
                                description := item_description it, tags := item_tags it \<rparr>) m"
      by blast
    have "url original \<noteq> url e" using o(2,3) assms(4) by auto
    then have "original \<noteq> e" by auto
    then have "id' original \<noteq> id' e"
      using assms(2,3) o(1) by (auto simp: distinct_map dest: inj_onD)
    then show ?thesis using o(4) by (simp add: map_of_map_set)
  qed
qed

lemma merge_items_other:
  "merge_items batch xs m = Inr m' \<Longrightarrow> i \<notin> id' ` set batch \<Longrightarrow> map_of m' i = map_of m i"
proof (induction xs arbitrary: m)
  case Nil
  then show ?case by simp
next
  case (Cons x xs)
  from Cons.prems(1) obtain m1 where m1: "merge_item batch x m = Inr m1"
    and rest: "merge_items batch xs m1 = Inr m'"
    by (auto split: sum.splits)
  show ?case
    using Cons.IH [OF rest Cons.prems(2)] merge_item_other [OF m1 Cons.prems(2)] by simp
qed

lemma merge_items_miss:
  assumes "distinct (map id' batch)" "e \<in> set batch"
  shows "merge_items batch xs m = Inr m' \<Longrightarrow> url e \<notin> set (item_urls xs) \<Longrightarrow>
         map_of m' (id' e) = map_of m (id' e)"
proof (induction xs arbitrary: m)
  case Nil
  then show ?case by simp
next
  case (Cons x xs)
  from Cons.prems(1) obtain m1 where m1: "merge_item batch x m = Inr m1"
    and rest: "merge_items batch xs m1 = Inr m'"
    by (auto split: sum.splits)
  have no: "\<not> (\<exists>it. x = ItemObject it \<and> item_url it = Some (url e))"
    and no': "url e \<notin> set (item_urls xs)"
    using Cons.prems(2) by (auto simp: item_urls_Cons)
  show ?case
    using Cons.IH [OF rest no'] merge_item_miss [OF m1 assms no] by simp
qed

lemma merge_items_hit:
  assumes "distinct (map id' batch)" "distinct (map url batch)" "e \<in> set batch"
  shows "merge_items batch xs m = Inr m' \<Longrightarrow>
         url e \<in> set (item_urls xs) \<or> (\<exists>v. map_of m (id' e) = Some v \<and> enriched_from e v) \<Longrightarrow>
         \<exists>v. map_of m' (id' e) = Some v \<and> enriched_from e v"
proof (induction xs arbitrary: m)
  case Nil
  then show ?case by (simp add: item_urls_def map_filter_simps)
next
  case (Cons x xs)
  from Cons.prems(1) obtain m1 where m1: "merge_item batch x m = Inr m1"
    and rest: "merge_items batch xs m1 = Inr m'"
    by (auto split: sum.splits)
  have "url e \<in> set (item_urls xs) \<or> (\<exists>v. map_of m1 (id' e) = Some v \<and> enriched_from e v)"
  proof (cases "\<exists>it. x = ItemObject it \<and> item_url it = Some (url e)")
    case True
    then obtain it where "x = ItemObject it" "item_url it = Some (url e)" by blast
    then show ?thesis using merge_item_hit [OF _ assms(2,3), of it m m1] m1 by simp
  next
    case False
    then have "map_of m1 (id' e) = map_of m (id' e)"
      using merge_item_miss [OF m1 assms(1,3)] by simp
    then show ?thesis using Cons.prems(2) False by (auto simp: item_urls_Cons)
  qed
  then show ?case by (rule Cons.IH [OF rest])
qed

lemma process_batch_merge:
  assumes "process_batch ai k batch m = Inr m'"
  shows "merge_items batch (response_items (ai k (map (\<lambda>b. (title b, url b)) batch))) m = Inr m'"
proof (cases "ai k (map (\<lambda>b. (title b, url b)) batch)")
  case Rejected
  then show ?thesis using assms by (simp add: process_batch_def)
next
  case (Responded b)
  then show ?thesis using assms
    by (cases "Responded b" rule: throws.cases)
       (auto simp: process_batch_def parse_text_def merge_result_def)
qed

lemma process_batch_other:
  "process_batch ai k batch m = Inr m' \<Longrightarrow> i \<notin> id' ` set batch \<Longrightarrow> map_of m' i = map_of m i"
  using merge_items_other process_batch_merge by blast

lemma process_batch_miss:
  "process_batch ai k batch m = Inr m' \<Longrightarrow> distinct (map id' batch) \<Longrightarrow> e \<in> set batch \<Longrightarrow>
   url e \<notin> set (answered ai k batch) \<Longrightarrow> map_of m' (id' e) = map_of m (id' e)"
  using merge_items_miss [of batch e] process_batch_merge [of ai k batch m m']
  by (simp add: answered_def)

lemma process_batch_hit:
  "process_batch ai k batch m = Inr m' \<Longrightarrow> distinct (map id' batch) \<Longrightarrow> distinct (map url batch) \<Longrightarrow>
   e \<in> set batch \<Longrightarrow> url e \<in> set (answered ai k batch) \<Longrightarrow>
   \<exists>v. map_of m' (id' e) = Some v \<and> enriched_from e v"
  using merge_items_hit [of batch e] process_batch_merge [of ai k batch m m']
  by (simp add: answered_def)

lemma process_batch_ok:
  "\<not> throws (ai k (map (\<lambda>b. (title b, url b)) batch)) \<Longrightarrow> \<exists>m'. process_batch ai k batch m = Inr m'"
  using process_batch_isl [of ai k batch m] by (cases "process_batch ai k batch m") auto

lemma process_batch_bad:
  "throws (ai k (map (\<lambda>b. (title b, url b)) batch)) \<Longrightarrow> \<exists>e. process_batch ai k batch m = Inl e"
  using process_batch_isl [of ai k batch m] by (cases "process_batch ai k batch m") auto

lemma merge_all_other:
  "i \<notin> id' ` set (concat before) \<Longrightarrow> map_of (merge_all ai k before m) i = map_of m i"
proof (induction before arbitrary: k m)
  case Nil
  then show ?case by simp
next
  case (Cons batch rest)
  show ?case
  proof (cases "process_batch ai k batch m")
    case (Inl e)
    then show ?thesis by simp
  next
    case (Inr m1)
    have "map_of m1 i = map_of m i"
      using process_batch_other [OF Inr, of i] Cons.prems by auto
    moreover have "map_of (merge_all ai (Suc k) rest m1) i = map_of m1 i"
      using Cons.IH [of "Suc k" m1] Cons.prems by auto
    ultimately show ?thesis using Inr by simp
  qed
qed

lemma distinct_concat_head:
  assumes "distinct (map f (concat (batch # rest)))"
  shows "distinct (map f batch)" "distinct (map f (concat rest))"
    "\<And>e. e \<in> set batch \<Longrightarrow> f e \<notin> f ` set (concat rest)"
    "\<And>e. e \<in> set (concat rest) \<Longrightarrow> f e \<notin> f ` set batch"
  using assms by auto

lemma merge_all_entry:
  assumes "\<forall>j < length before. \<not> throws (ai (k + j) (map (\<lambda>b. (title b, url b)) (before ! j)))"
    and "distinct (map id' (concat before))" "distinct (map url (concat before))"
    and "j < length before" "e \<in> set (before ! j)"
  shows "(url e \<in> set (answered ai (k + j) (before ! j)) \<longrightarrow>
            (\<exists>v. map_of (merge_all ai k before m) (id' e) = Some v \<and> enriched_from e v))
       \<and> (url e \<notin> set (answered ai (k + j) (before ! j)) \<longrightarrow>
            map_of (merge_all ai k before m) (id' e) = map_of m (id' e))"
  using assms
proof (induction before arbitrary: k m j)
  case Nil
  then show ?case by simp
next
  case (Cons batch rest)
  have "\<not> throws (ai k (map (\<lambda>b. (title b, url b)) batch))"
    using Cons.prems(1) by force
  then obtain m1 where m1: "process_batch ai k batch m = Inr m1"
    using process_batch_ok by blast
  note d = distinct_concat_head [OF Cons.prems(2)] distinct_concat_head(1) [OF Cons.prems(3)]
    distinct_concat_head(2) [OF Cons.prems(3)]
  have all: "merge_all ai k (batch # rest) m = merge_all ai (Suc k) rest m1"
    using m1 by simp
  show ?case
  proof (cases j)
    case 0
    then have e: "e \<in> set batch" using Cons.prems(5) by simp
    have later: "map_of (merge_all ai (Suc k) rest m1) (id' e) = map_of m1 (id' e)"
      using merge_all_other [of "id' e" rest ai "Suc k" m1] d(3) [OF e] by simp
    show ?thesis
      unfolding all 0
      using process_batch_hit [OF m1 d(1) d(5) e] process_batch_miss [OF m1 d(1) e] later
      by simp
  next
    case (Suc j')
    then have j': "j' < length rest" and e: "e \<in> set (rest ! j')"
      using Cons.prems(4,5) by simp_all
    have ok: "\<forall>i < length rest. \<not> throws (ai (Suc k + i) (map (\<lambda>b. (title b, url b)) (rest ! i)))"
    proof (intro allI impI)
      fix i assume "i < length rest"
      then have "Suc i < length (batch # rest)" by simp
      from Cons.prems(1) [rule_format, OF this] show
        "\<not> throws (ai (Suc k + i) (map (\<lambda>b. (title b, url b)) (rest ! i)))" by simp
    qed
    have "rest ! j' \<in> set rest" using j' by simp
    then have "e \<in> set (concat rest)" using e by auto
    then have "id' e \<notin> id' ` set batch" by (rule d(4))
    then have first: "map_of m1 (id' e) = map_of m (id' e)"
      using process_batch_other [OF m1] by simp
    from Cons.IH [OF ok d(2) d(6) j' e, of m1] show ?thesis
      unfolding all Suc using first by simp
  qed
qed

lemma batch_loop_abort:
  assumes "\<forall>j < length before. \<not> throws (ai (k + j) (map (\<lambda>b. (title b, url b)) (before ! j)))"
    and "throws (ai (k + length before) (map (\<lambda>b. (title b, url b)) bad))"
  shows "calls (batch_loop ai no_deletes k (before @ bad # after) m st) = calls st + length before + 1
       \<and> alerts (batch_loop ai no_deletes k (before @ bad # after) m st) = alerts st + 1
       \<and> failure (batch_loop ai no_deletes k (before @ bad # after) m st) \<noteq> None
       \<and> length (commits (batch_loop ai no_deletes k (before @ bad # after) m st))
           = length (commits st) + length before
       \<and> catalog (batch_loop ai no_deletes k (before @ bad # after) m st)
           = (if before = [] then catalog st else map_values (merge_all ai k before m))"
  using assms
proof (induction before arbitrary: k m st)
  case Nil
  then obtain e where "process_batch ai k bad m = Inl e"
    using process_batch_bad [of ai k bad m] by auto
  then show ?case by (simp add: Let_def no_deletes_def)
next
  case (Cons batch rest)
  have "\<not> throws (ai k (map (\<lambda>b. (title b, url b)) batch))"
    using Cons.prems(1) by force
  then obtain m1 where m1: "process_batch ai k batch m = Inr m1"
    using process_batch_ok by blast
  let ?s = "st\<lparr> calls := calls st + 1, catalog := map_values m1,
                commits := commits st @ [map_values m1] \<rparr>"
  have eq: "batch_loop ai no_deletes k ((batch # rest) @ bad # after) m st
          = batch_loop ai no_deletes (Suc k) (rest @ bad # after) m1 ?s"
    using m1 by (simp add: Let_def no_deletes_def)
  have ok: "\<forall>i < length rest. \<not> throws (ai (Suc k + i) (map (\<lambda>b. (title b, url b)) (rest ! i)))"
  proof (intro allI impI)
    fix i assume "i < length rest"
    then have "Suc i < length (batch # rest)" by simp
    from Cons.prems(1) [rule_format, OF this] show
      "\<not> throws (ai (Suc k + i) (map (\<lambda>b. (title b, url b)) (rest ! i)))" by simp
  qed
  have bad: "throws (ai (Suc k + length rest) (map (\<lambda>b. (title b, url b)) bad))"
    using Cons.prems(2) by simp
  from Cons.IH [OF ok bad, of m1 ?s] show ?case
    using m1 by (simp only: eq) (cases "rest = []"; simp)
qed

lemma map_of_ids:
  "distinct (map id' bs) \<Longrightarrow> e \<in> set bs \<Longrightarrow> map_of (map (\<lambda>b. (id' b, b)) bs) (id' e) = Some e"
  by (induction bs) (auto simp: image_iff)

lemma distinct_append_apart:
  "distinct (map f (xs @ ys)) \<Longrightarrow> e \<in> set ys \<Longrightarrow> f e \<notin> f ` set xs"
  by auto

lemma map_of_value: "map_of m i = Some v \<Longrightarrow> v \<in> set (map_values m)"
  by (force simp: map_values_def dest: map_of_SomeD)

lemma map_set_keys_same: "k \<in> fst ` set m \<Longrightarrow> map fst (map_set k v m) = map fst m"
proof (induction m)
  case Nil
  then show ?case by simp
next
  case (Cons p m)
  obtain k' v' where p: "p = (k', v')" by (cases p)
  show ?case
  proof (cases "k' = k")
    case True
    then show ?thesis by (simp add: p)
  next
    case False
    then have "k \<in> fst ` set m" using Cons.prems by (auto simp: p)
    then show ?thesis using Cons.IH False by (simp add: p)
  qed
qed

lemma order_inv_step:
  assumes "order_inv bs m" "original \<in> set bs" "id' v = id' original"
  shows "order_inv bs (map_set (id' original) v m)"
proof -
  have "id' original \<in> set (map fst m)"
    using assms(1,2) by (simp add: order_inv_def)
  then have "id' original \<in> fst ` set m" by simp
  then have "map fst (map_set (id' original) v m) = map id' bs"
    using assms(1) by (simp add: map_set_keys_same order_inv_def)
  moreover have "p = (id' original, v) \<or> p \<in> set m" if "p \<in> set (map_set (id' original) v m)" for p
    using that map_set_set [of "id' original" v m] by auto
  ultimately show ?thesis
    using assms(1,3) unfolding order_inv_def by fastforce
qed

lemma order_inv_init:
  "distinct (map id' bs) \<Longrightarrow> order_inv bs (new_Map (map (\<lambda>b. (id' b, b)) bs))"
proof -
  assume "distinct (map id' bs)"
  then have "new_Map (map (\<lambda>b. (id' b, b)) bs) = map (\<lambda>b. (id' b, b)) bs"
    by (intro new_Map_distinct_id) (simp add: comp_def)
  then show ?thesis by (auto simp: order_inv_def comp_def)
qed

lemma order_inv_values:
  assumes "order_inv bs m"
  shows "map id' (map_values m) = map id' bs"
proof -
  have a: "\<forall>p \<in> set m. id' (snd p) = fst p"
    using assms by (auto simp: order_inv_def)
  have "map id' (map_values m) = map (\<lambda>p. id' (snd p)) m"
    by (simp add: map_values_def)
  also have "\<dots> = map fst m"
    using a by (simp add: map_eq_conv)
  also have "\<dots> = map id' bs"
    using assms by (simp add: order_inv_def)
  finally show ?thesis .
qed

lemma merge_all_inv:
  assumes step: "\<And>m original it. I m \<Longrightarrow> original \<in> S \<Longrightarrow> G it \<Longrightarrow>
            I (map_set (id' original)
                 (original\<lparr> processed := True, category := item_category it,
                            description := item_description it, tags := item_tags it \<rparr>) m)"
    and svc: "\<And>k p xs it. ai k p = Responded (Json (ParsedObject (ItemsArray xs))) \<Longrightarrow>
            ItemObject it \<in> set xs \<Longrightarrow> G it"
    and "\<forall>batch \<in> set before. set batch \<subseteq> S"
    and "I m"
  shows "I (merge_all ai k before m)"
  using assms(3-)
proof (induction before arbitrary: k m)
  case Nil
  then show ?case by simp
next
  case (Cons batch rest)
  show ?case
  proof (cases "process_batch ai k batch m")
    case (Inl e)
    then show ?thesis using Cons.prems(2) by simp
  next
    case (Inr m1)
    have "I m1"
      using process_batch_inv [of I batch G ai m k m1] step svc Cons.prems(1,2) Inr
      by (metis list.set_intros(1) subsetD)
    moreover have "\<forall>b \<in> set rest. set b \<subseteq> S" using Cons.prems(1) by simp
    ultimately show ?thesis using Cons.IH [of m1 "Suc k"] Inr by simp
  qed
qed

lemma merge_all_order:
  assumes "distinct (map id' bs)" "\<forall>batch \<in> set before. set batch \<subseteq> set bs"
  shows "map id' (map_values (merge_all ai k before (new_Map (map (\<lambda>b. (id' b, b)) bs)))) = map id' bs"
proof -
  have "order_inv bs (merge_all ai k before (new_Map (map (\<lambda>b. (id' b, b)) bs)))"
    by (rule merge_all_inv [where I = "order_inv bs" and G = "\<lambda>it. True" and S = "set bs"])
       (auto intro: order_inv_step order_inv_init [OF assms(1)] simp: assms(2))
  then show ?thesis by (rule order_inv_values)
qed

text \<open>
  Claim C3, as the code has it. Take a catalog with pairwise distinct ids and urls
  and a run, with no deletion meanwhile, whose batches are \<open>before @ bad # after\<close>:
  the responses to the batches of \<open>before\<close> do not throw and the response to \<open>bad\<close>
  does. Then the run made one call per batch of \<open>before\<close> and one for \<open>bad\<close> and no
  other, committed once per batch of \<open>before\<close>, showed exactly one alert and recorded
  the failure. The resulting catalog has the ids of the catalog before the run, in
  the same order. In it, an entry of a batch of \<open>before\<close> is enriched
  when the response to its batch carried an item with its url, and stands unchanged
  and unprocessed otherwise; every entry of \<open>bad\<close> and of \<open>after\<close> stands unchanged and
  unprocessed.
\<close>

theorem partial_failure:
  assumes "distinct (map id' bs)" "distinct (map url bs)"
    and "make_batches 0 (filter (\<lambda>b. \<not> processed b) bs) = before @ bad # after"
    and "\<forall>j < length before. \<not> throws (ai j (map (\<lambda>b. (title b, url b)) (before ! j)))"
    and "throws (ai (length before) (map (\<lambda>b. (title b, url b)) bad))"
  shows "calls (processUnprocessedBookmarks ai no_deletes bs) = length before + 1
       \<and> alerts (processUnprocessedBookmarks ai no_deletes bs) = 1
       \<and> failure (processUnprocessedBookmarks ai no_deletes bs) \<noteq> None
       \<and> length (commits (processUnprocessedBookmarks ai no_deletes bs)) = length before
       \<and> map id' (catalog (processUnprocessedBookmarks ai no_deletes bs)) = map id' bs
       \<and> (\<forall>j < length before. \<forall>e \<in> set (before ! j).
            (url e \<in> set (answered ai j (before ! j)) \<longrightarrow>
               (\<exists>v \<in> set (catalog (processUnprocessedBookmarks ai no_deletes bs)). enriched_from e v))
            \<and> (url e \<notin> set (answered ai j (before ! j)) \<longrightarrow>
               e \<in> set (catalog (processUnprocessedBookmarks ai no_deletes bs)) \<and> \<not> processed e))
       \<and> (\<forall>e \<in> set bad \<union> set (concat after).
            e \<in> set (catalog (processUnprocessedBookmarks ai no_deletes bs)) \<and> \<not> processed e)"
proof -
  let ?un = "filter (\<lambda>b. \<not> processed b) bs"
  let ?st = "\<lparr> catalog = bs, isProcessing = True, calls = 0, commits = [], alerts = 0, failure = None \<rparr>"
  let ?m = "new_Map (map (\<lambda>b. (id' b, b)) bs)"
  let ?r = "processUnprocessedBookmarks ai no_deletes bs"
  let ?M = "merge_all ai 0 before ?m"
  have ne: "?un \<noteq> []"
  proof
    assume "?un = []"
    then have "make_batches 0 ?un = []" by (subst make_batches.simps) simp
    then show False using assms(3) by simp
  qed
  have r: "?r = (batch_loop ai no_deletes 0 (before @ bad # after) ?m ?st)\<lparr> isProcessing := False \<rparr>"
    using ne assms(3) by (simp add: processUnprocessedBookmarks_def Let_def)
  have ok0: "\<forall>j < length before. \<not> throws (ai (0 + j) (map (\<lambda>b. (title b, url b)) (before ! j)))"
    using assms(4) by simp
  have bad0: "throws (ai (0 + length before) (map (\<lambda>b. (title b, url b)) bad))"
    using assms(5) by simp
  note loop = batch_loop_abort [OF ok0 bad0, of after ?m ?st]
  have cat: "catalog ?r = (if before = [] then bs else map_values ?M)"
    using loop by (simp add: r)
  have m0: "?m = map (\<lambda>b. (id' b, b)) bs"
    using assms(1) by (intro new_Map_distinct_id) (simp add: comp_def)
  have start: "map_of ?m (id' e) = Some e" if "e \<in> set bs" for e
    using map_of_ids [OF assms(1) that] by (simp add: m0)
  have un: "?un = concat before @ bad @ concat after"
    using make_batches_concat [of 0 ?un] assms(3) by simp
  have dun: "distinct (map id' ?un)" "distinct (map url ?un)"
    using assms(1,2) by (simp_all add: distinct_map_filter)
  have dbefore: "distinct (map id' (concat before))" "distinct (map url (concat before))"
    using dun unfolding un by simp_all
  have in_un: "e \<in> set bs \<and> \<not> processed e" if "e \<in> set ?un" for e
    using that by simp
  have tail: "e \<in> set (catalog ?r) \<and> \<not> processed e" if e: "e \<in> set bad \<union> set (concat after)" for e
  proof -
    have u: "e \<in> set ?un" using e unfolding un by auto
    have "e \<in> set (bad @ concat after)" using e by simp
    then have "id' e \<notin> id' ` set (concat before)"
      using dun(1) unfolding un by (rule distinct_append_apart [rotated])
    then have "map_of ?M (id' e) = Some e"
      using merge_all_other [of "id' e" before ai 0 ?m] start in_un [OF u] by simp
    then have "e \<in> set (map_values ?M)" by (rule map_of_value)
    then show ?thesis using in_un [OF u] cat by simp
  qed
  have head: "(url e \<in> set (answered ai j (before ! j)) \<longrightarrow> (\<exists>v \<in> set (catalog ?r). enriched_from e v))
            \<and> (url e \<notin> set (answered ai j (before ! j)) \<longrightarrow> e \<in> set (catalog ?r) \<and> \<not> processed e)"
    if j: "j < length before" and e: "e \<in> set (before ! j)" for j e
  proof -
    have "before ! j \<in> set before" using j by simp
    then have "e \<in> set (concat before)" using e by auto
    then have u: "e \<in> set ?un" unfolding un by simp
    have nonempty: "before \<noteq> []" using j by auto
    from merge_all_entry [OF ok0 dbefore j e, of ?m]
    have hit: "url e \<in> set (answered ai j (before ! j)) \<Longrightarrow>
            \<exists>v. map_of ?M (id' e) = Some v \<and> enriched_from e v"
      and miss: "url e \<notin> set (answered ai j (before ! j)) \<Longrightarrow> map_of ?M (id' e) = map_of ?m (id' e)"
      by simp_all
    have "\<exists>v \<in> set (catalog ?r). enriched_from e v" if "url e \<in> set (answered ai j (before ! j))"
      using hit [OF that] map_of_value [of ?M "id' e"] cat nonempty by auto
    moreover have "e \<in> set (catalog ?r) \<and> \<not> processed e" if "url e \<notin> set (answered ai j (before ! j))"
      using miss [OF that] start in_un [OF u] map_of_value [of ?M "id' e" e] cat nonempty by simp
    ultimately show ?thesis by blast
  qed
  have ids: "map id' (catalog ?r) = map id' bs"
  proof (cases "before = []")
    case True
    then show ?thesis using cat by simp
  next
    case False
    have "set batch \<subseteq> set bs" if "batch \<in> set before" for batch
    proof -
      have "set batch \<subseteq> set (concat before)" using that by auto
      then show ?thesis using in_un unfolding un by auto
    qed
    then show ?thesis
      using merge_all_order [OF assms(1), of before ai 0] cat False by simp
  qed
  show ?thesis
    using loop head tail ids by (simp add: r)
qed

text \<open>
  Claim C3 as stated fails: of two batches, the first is answered with no body (no
  item, no error) and the second call is rejected; the run aborts with one alert
  after two calls, and the ten entries of the first batch are still unprocessed.
\<close>

theorem partial_failure_counterexample:
  "make_batches 0 (filter (\<lambda>b. \<not> processed b) cat11) = [take 10 cat11, drop 10 cat11]
   \<and> throws (silent_then_fails 0 (map (\<lambda>b. (title b, url b)) (take 10 cat11))) = False
   \<and> throws (silent_then_fails 1 (map (\<lambda>b. (title b, url b)) (drop 10 cat11))) = True
   \<and> failure (processUnprocessedBookmarks silent_then_fails no_deletes cat11) = Some ServiceError
   \<and> calls (processUnprocessedBookmarks silent_then_fails no_deletes cat11) = 2
   \<and> alerts (processUnprocessedBookmarks silent_then_fails no_deletes cat11) = 1
   \<and> map processed (catalog (processUnprocessedBookmarks silent_then_fails no_deletes cat11))
     = [False, False, False, False, False, False, False, False, False, False, False]"
  by code_simp

theorem partial_failure_witness:
  "distinct (map id' cat21) \<and> distinct (map url cat21)
   \<and> make_batches 0 (filter (\<lambda>b. \<not> processed b) cat21)
     = [take 10 cat21] @ take 10 (drop 10 cat21) # [drop 20 cat21]
   \<and> throws (fails_second 0 (map (\<lambda>b. (title b, url b)) ([take 10 cat21] ! 0))) = False
   \<and> throws (fails_second (length [take 10 cat21]) (map (\<lambda>b. (title b, url b)) (take 10 (drop 10 cat21))))
   \<and> calls (processUnprocessedBookmarks fails_second no_deletes cat21) = 2
   \<and> alerts (processUnprocessedBookmarks fails_second no_deletes cat21) = 1
   \<and> length (commits (processUnprocessedBookmarks fails_second no_deletes cat21)) = 1
   \<and> hd cat21 \<in> set ([take 10 cat21] ! 0)
   \<and> url (hd cat21) \<in> set (answered fails_second 0 ([take 10 cat21] ! 0))
   \<and> (\<exists>v \<in> set (catalog (processUnprocessedBookmarks fails_second no_deletes cat21)).
         enriched_from (hd cat21) v)
   \<and> last cat21 \<in> set (take 10 (drop 10 cat21)) \<union> set (concat [drop 20 cat21])
   \<and> last cat21 \<in> set (catalog (processUnprocessedBookmarks fails_second no_deletes cat21))"
proof -
  have d: "distinct (map id' cat21)" "distinct (map url cat21)"
    by code_simp+
  have b: "make_batches 0 (filter (\<lambda>b. \<not> processed b) cat21)
     = [take 10 cat21] @ take 10 (drop 10 cat21) # [drop 20 cat21]"
    by code_simp
  have ok: "\<forall>j < length [take 10 cat21].
      \<not> throws (fails_second j (map (\<lambda>b. (title b, url b)) ([take 10 cat21] ! j)))"
    by (simp add: fails_second_def helpful_def case_prod_beta image_iff)
  have bad: "throws (fails_second (length [take 10 cat21])
      (map (\<lambda>b. (title b, url b)) (take 10 (drop 10 cat21))))"
    by (simp add: fails_second_def)
  have e0: "hd cat21 \<in> set ([take 10 cat21] ! 0)"
    "url (hd cat21) \<in> set (answered fails_second 0 ([take 10 cat21] ! 0))"
    by code_simp+
  have e20: "last cat21 \<in> set (take 10 (drop 10 cat21)) \<union> set (concat [drop 20 cat21])"
    by code_simp
  from partial_failure [OF d b ok bad] e0 e20 ok d b bad show ?thesis
    by simp
qed

end
